theory Spec2Isabelle
  imports Main "HOL-Library.Word" "HOL-Library.Multiset"
begin

unbundle bit_operations_syntax

section \<open>The log writer of golog: \<open>logger/logger_writer.go\<close>\<close>

text \<open>
  The file keeps its whole state in package-level variables: two buffered channels of
  message pointers (\<open>messages\<close>, the pending queue, and \<open>freeMessages\<close>, the pool), the
  array \<open>msgArr\<close> the pointers point into, the optional \<open>customSock\<close>, the flag
  \<open>shuttingDown\<close> under its \<open>sync.RWMutex\<close>, the wait group \<open>wg\<close> and three
  \<open>uint64\<close> counters. The model is a record of these variables; each Go function is a
  function from that record to an outcome and the updated record. What the Go run time
  and the C library do (channels, \<open>bytes.Buffer\<close>, \<open>fmt\<close>, \<open>syslog(3)\<close>, \<open>net\<close>) is
  modelled beside it, as far as the file uses it.
\<close>

subsection \<open>Constants\<close>

definition NumMessages :: nat where
  "NumMessages = 10 * 1024"

definition MaxFreeMsgSize :: nat where
  "MaxFreeMsgSize = 8 * 1024"

text \<open>
  \<open>C.int\<close> is a 32-bit signed integer. The priorities and the facility are the values of
  \<open><syslog.h>\<close>: \<open>LOG_ERR\<close> 3, \<open>LOG_WARNING\<close> 4, \<open>LOG_INFO\<close> 6, \<open>LOG_DEBUG\<close> 7 and
  \<open>LOG_USER\<close> \<open>1 << 3\<close>.
\<close>

type_synonym cint = "32 word"

definition LOG_ERR :: cint where "LOG_ERR = 3"
definition LOG_WARNING :: cint where "LOG_WARNING = 4"
definition LOG_INFO :: cint where "LOG_INFO = 6"
definition LOG_DEBUG :: cint where "LOG_DEBUG = 7"
definition LOG_USER :: cint where "LOG_USER = push_bit 3 1"

subsection \<open>Severities and the two tables\<close>

text \<open>
  Modelled from the spec: the type \<open>Level\<close> and the value \<open>Levels\<close> are declared in
  another file of the package; the spec names the seven recognized severities Access,
  Off, Panic, Error, Warn, Info and Debug, which are also the seven keys of both tables.
\<close>

datatype Level = Access | Off | Panic | Error | Warn | Info | Debug

text \<open>Reading a Go map at a key it does not hold gives the zero value of the value type.\<close>

definition mapIndex :: "('k \<rightharpoonup> 'v) \<Rightarrow> 'k \<Rightarrow> 'v \<Rightarrow> 'v" where
  "mapIndex m k zero = (case m k of None \<Rightarrow> zero | Some v \<Rightarrow> v)"

definition levelSysLog :: "Level \<rightharpoonup> cint" where
  "levelSysLog = [
     Access \<mapsto> LOG_INFO,
     Off \<mapsto> LOG_DEBUG,
     Panic \<mapsto> LOG_ERR,
     Error \<mapsto> LOG_ERR,
     Warn \<mapsto> LOG_WARNING,
     Info \<mapsto> LOG_INFO,
     Debug \<mapsto> LOG_DEBUG]"

definition levelMapFmt :: "Level \<rightharpoonup> string" where
  "levelMapFmt = [
     Access \<mapsto> ''[Access] '',
     Off \<mapsto> ''[Off] '',
     Panic \<mapsto> ''[Panic] '',
     Error \<mapsto> ''[Error] '',
     Warn \<mapsto> ''[Warn] '',
     Info \<mapsto> ''[Info] '',
     Debug \<mapsto> ''[Debug] '']"

subsection \<open>Errors and outcomes\<close>

text \<open>
  The four error values of the file, and \<open>ErrExternal\<close> for an error that \<open>net.Dial\<close>,
  \<open>Conn.Write\<close> or a C call (through \<open>errno\<close>) reports. A Go \<open>error\<close> result is an
  \<open>error option\<close>, \<open>None\<close> being \<open>nil\<close>.
\<close>

datatype error =
    ErrLogFullBuf
  | ErrFreeMessageOverflow
  | ErrFreeMessageUnderflow
  | ErrUnavailable
  | ErrExternal

text \<open>
  What can go wrong below the level of error values: the run-time panics of channel
  operations, of indexing an empty slice and of a nil pointer, and the C library reading
  a buffer that holds no terminating NUL.
\<close>

datatype fault =
    CloseOfClosedChannel
  | SendOnClosedChannel
  | NilDereference
  | IndexOutOfRange
  | UnterminatedCString

text \<open>
  A call returns its \<open>err\<close>, panics, or blocks for ever (on the mutex or the wait group,
  when no other goroutine will release it).
\<close>

datatype result = Returned "error option" | Panicked fault | Blocked

subsection \<open>Buffered channels\<close>

record 'a chan =
  cbuf :: "'a list"
  ccap :: nat
  cclosed :: bool

definition make_chan :: "nat \<Rightarrow> 'a chan" where
  "make_chan n = \<lparr>cbuf = [], ccap = n, cclosed = False\<rparr>"

text \<open>
  \<open>select { case ch <- v: ... default: ... }\<close>: the send is taken when the buffer has
  room, the default otherwise; a send on a closed channel panics.
\<close>

datatype 'a select_send = Sent "'a chan" | SendDefault | SendPanic

definition select_send :: "'a \<Rightarrow> 'a chan \<Rightarrow> 'a select_send" where
  "select_send v ch =
     (if cclosed ch then SendPanic
      else if length (cbuf ch) < ccap ch then Sent (ch\<lparr>cbuf := cbuf ch @ [v]\<rparr>)
      else SendDefault)"

text \<open>
  \<open>select { case v = <-ch: ... default: ... }\<close>: the receive is taken when the buffer
  holds a value; on an empty closed channel it is taken too and gives the zero value
  (a nil pointer); on an empty open channel the default is taken.
\<close>

datatype 'a select_recv = Received 'a "'a chan" | ReceivedZero | RecvDefault

definition select_recv :: "'a chan \<Rightarrow> 'a select_recv" where
  "select_recv ch =
     (case cbuf ch of
        v # rest \<Rightarrow> Received v (ch\<lparr>cbuf := rest\<rparr>)
      | [] \<Rightarrow> if cclosed ch then ReceivedZero else RecvDefault)"

subsection \<open>Messages\<close>

text \<open>
  \<open>logMessage\<close> embeds a \<open>bytes.Buffer\<close> and adds the level. Of the buffer the file uses
  \<open>Write\<close>, \<open>WriteByte\<close>, \<open>Bytes\<close>, \<open>Cap\<close> and \<open>Reset\<close>, and never reads from it, so the
  buffer is its contents and the capacity of its backing array. How far the array grows
  when a write does not fit is the business of the Go run time: it is the parameter
  \<open>grow\<close>, from the old capacity and the length needed to the new capacity.
\<close>

record logMessage =
  bytes :: string
  bcap :: nat
  level :: cint

definition zeroMessage :: logMessage where
  "zeroMessage = \<lparr>bytes = [], bcap = 0, level = 0\<rparr>"

definition Write :: "(nat \<Rightarrow> nat \<Rightarrow> nat) \<Rightarrow> string \<Rightarrow> logMessage \<Rightarrow> logMessage" where
  "Write grow p m =
     (let n = length (bytes m) + length p
      in m\<lparr>bytes := bytes m @ p,
            bcap := (if n \<le> bcap m then bcap m else grow (bcap m) n)\<rparr>)"

definition WriteByte :: "(nat \<Rightarrow> nat \<Rightarrow> nat) \<Rightarrow> char \<Rightarrow> logMessage \<Rightarrow> logMessage" where
  "WriteByte grow c m = Write grow [c] m"

definition Reset :: "logMessage \<Rightarrow> logMessage" where
  "Reset m = m\<lparr>bytes := []\<rparr>"

definition Cap :: "logMessage \<Rightarrow> nat" where
  "Cap m = bcap m"

subsection \<open>Formatting\<close>

text \<open>\<open>fmt\<close>'s verb \<open>%d\<close> on a signed integer.\<close>

definition digit :: "nat \<Rightarrow> char" where
  "digit n = ''0123456789'' ! n"

function decimal :: "nat \<Rightarrow> string" where
  "decimal n = (if n < 10 then [digit n] else decimal (n div 10) @ [digit (n mod 10)])"
  by pat_completeness auto
termination
  by (relation "measure id") auto

declare decimal.simps [simp del]

definition fmt_d :: "int \<Rightarrow> string" where
  "fmt_d i = (if i < 0 then CHR ''-'' # decimal (nat (- i)) else decimal (nat i))"

subsection \<open>The state\<close>

text \<open>
  A message pointer \<open>&msgArr[i]\<close> is the index \<open>i\<close>. A connection records the byte
  strings handed to its \<open>Write\<close> and whether \<open>Close\<close> was called; \<open>syslog_calls\<close> records
  the priority and the C string of every call of \<open>csyslog\<close>. \<open>readers\<close> and \<open>locked\<close> are
  the read holds and the write hold of \<open>shuttingDownMux\<close>. The counters \<open>logCount\<close>,
  \<open>dropCount\<close> and \<open>errCount\<close> are declared in another file of the package; the calls of
  \<open>atomic.AddUint64\<close> fix their type.
\<close>

type_synonym ptr = nat

record conn =
  writes :: "string list"
  conn_closed :: bool

record logger =
  messages :: "ptr chan"
  freeMessages :: "ptr chan"
  msgArr :: "logMessage list"
  logName :: "string option"
  customSock :: "conn option"
  shuttingDown :: bool
  readers :: nat
  locked :: bool
  wg :: nat
  logCount :: "64 word"
  dropCount :: "64 word"
  errCount :: "64 word"
  syslog_calls :: "(cint \<times> string) list"

text \<open>The variable initialisers of the file, for channels of capacity \<open>n\<close>.\<close>

definition vars :: "nat \<Rightarrow> logger" where
  "vars n = \<lparr>
     messages = make_chan n,
     freeMessages = make_chan n,
     msgArr = [],
     logName = None,
     customSock = None,
     shuttingDown = False,
     readers = 0,
     locked = False,
     wg = 0,
     logCount = 0,
     dropCount = 0,
     errCount = 0,
     syslog_calls = []\<rparr>"

subsection \<open>Setup calls\<close>

text \<open>
  \<open>SetCustomSocket\<close>: \<open>dialed\<close> is what \<open>net.Dial\<close> returns, a fresh connection or an
  error; on an error \<open>customSock\<close> becomes nil.
\<close>

definition SetCustomSocket :: "error option \<Rightarrow> logger \<Rightarrow> result \<times> logger" where
  "SetCustomSocket dialed s =
     (case dialed of
        None \<Rightarrow> (Returned None, s\<lparr>customSock := Some \<lparr>writes = [], conn_closed = False\<rparr>\<rparr>)
      | Some e \<Rightarrow> (Returned (Some e), s\<lparr>customSock := None\<rparr>))"

text \<open>\<open>SetLogName\<close>: \<open>opened\<close> is the error of the call of \<open>openlog\<close>.\<close>

definition SetLogName :: "string \<Rightarrow> error option \<Rightarrow> logger \<Rightarrow> result \<times> logger" where
  "SetLogName p opened s =
     (let s1 = s\<lparr>logName := Some p\<rparr>
      in case opened of
           None \<Rightarrow> (Returned None, s1)
         | Some e \<Rightarrow> (Returned (Some e), s1\<lparr>errCount := errCount s1 + 1\<rparr>))"

subsection \<open>The pool and the producer's side\<close>

text \<open>\<open>freeMsg\<close> releases the message back to be reused.\<close>

definition freeMsg :: "ptr \<Rightarrow> logger \<Rightarrow> result \<times> logger" where
  "freeMsg msg s =
     (case select_send msg (freeMessages s) of
        Sent ch \<Rightarrow> (Returned None, s\<lparr>freeMessages := ch\<rparr>)
      | SendDefault \<Rightarrow> (Returned (Some ErrFreeMessageOverflow), s\<lparr>errCount := errCount s + 1\<rparr>)
      | SendPanic \<Rightarrow> (Panicked SendOnClosedChannel, s))"

text \<open>
  The read lock. \<open>RUnlock\<close> is only ever called by a goroutine that holds a read lock,
  so it does not meet a count of zero (\<open>guarded\<close> below says so for every world the
  program reaches).
\<close>

definition RLock :: "logger \<Rightarrow> logger" where
  "RLock s = s\<lparr>readers := readers s + 1\<rparr>"

definition RUnlock :: "logger \<Rightarrow> logger" where
  "RUnlock s = s\<lparr>readers := readers s - 1\<rparr>"

text \<open>
  \<open>queueMsgDirect\<close> in two parts, for a message may stay in the hands of the producer
  while other goroutines run. The first part, \<open>queueMsgDirect_acquire\<close>, takes the read
  lock (it waits while the mutex is write-locked), tests the flag, counts the call and
  takes a message from the pool; it either ends the call, with the read lock released,
  or goes on holding a message and the read lock.
\<close>

datatype acquired =
    Done result logger
  | Holding ptr logger

definition queueMsgDirect_acquire :: "logger \<Rightarrow> acquired" where
  "queueMsgDirect_acquire s =
     (if locked s then Done Blocked s
      else let s1 = RLock s in
        if \<not> shuttingDown s1 then
          (let s2 = s1\<lparr>logCount := logCount s1 + 1\<rparr>
           in case select_recv (freeMessages s2) of
                Received msg ch \<Rightarrow> Holding msg (s2\<lparr>freeMessages := ch\<rparr>)
              | RecvDefault \<Rightarrow> Done (Returned None) (RUnlock (s2\<lparr>dropCount := dropCount s2 + 1\<rparr>))
              | ReceivedZero \<Rightarrow> Done (Panicked NilDereference) (RUnlock s2))
        else Done (Returned (Some ErrUnavailable)) (RUnlock s1))"

text \<open>
  The second part renders into the message and queues it. The level is
  \<open>levelSysLog[Levels.Debug]\<close> as in the source. Both \<open>if ...; err != nil\<close> after the
  writes test the named result \<open>err\<close>, which nothing has assigned yet, so their branches
  are never taken and are left out. On the way out the deferred function frees the
  message when \<open>err\<close> is not nil, and then the read lock is released.
\<close>

definition render :: "(nat \<Rightarrow> nat \<Rightarrow> nat) \<Rightarrow> string \<Rightarrow> logMessage \<Rightarrow> logMessage" where
  "render grow logEntry m =
     WriteByte grow (CHR 0x00)
       (Write grow logEntry (m\<lparr>level := mapIndex levelSysLog Debug 0\<rparr>))"

definition queueMsgDirect_queue ::
    "(nat \<Rightarrow> nat \<Rightarrow> nat) \<Rightarrow> string \<Rightarrow> ptr \<Rightarrow> logger \<Rightarrow> result \<times> logger" where
  "queueMsgDirect_queue grow logEntry msg s =
     (let s1 = s\<lparr>msgArr := (msgArr s)[msg := render grow logEntry (msgArr s ! msg)]\<rparr>
      in case select_send msg (messages s1) of
           Sent ch \<Rightarrow> (Returned None, RUnlock (s1\<lparr>messages := ch\<rparr>))
         | SendDefault \<Rightarrow>
             (case freeMsg msg (s1\<lparr>errCount := errCount s1 + 1\<rparr>) of
                (Panicked f, s2) \<Rightarrow> (Panicked f, RUnlock s2)
              | (_, s2) \<Rightarrow> (Returned (Some ErrLogFullBuf), RUnlock s2))
         | SendPanic \<Rightarrow> (Panicked SendOnClosedChannel, RUnlock s1))"

definition queueMsgDirect :: "(nat \<Rightarrow> nat \<Rightarrow> nat) \<Rightarrow> string \<Rightarrow> logger \<Rightarrow> result \<times> logger" where
  "queueMsgDirect grow logEntry s =
     (case queueMsgDirect_acquire s of
        Done r s1 \<Rightarrow> (r, s1)
      | Holding msg s1 \<Rightarrow> queueMsgDirect_queue grow logEntry msg s1)"

text \<open>
  \<open>queueMsg\<close>: \<open>body\<close> is the result of the inner \<open>fmt.Sprintf(format, v...)\<close>. The outer
  format \<open>"%s %s %s"\<close> puts one space between its three operands; the first operand is
  the table entry of the level, a nil slice (printed as nothing) for a level outside the
  table. \<open>logMsg\<close> is the variable of that name.
\<close>

definition logMsg :: "Level \<Rightarrow> string \<Rightarrow> string \<Rightarrow> string" where
  "logMsg lvl prefix body = mapIndex levelMapFmt lvl [] @ '' '' @ prefix @ '' '' @ body"

definition queueMsg ::
    "(nat \<Rightarrow> nat \<Rightarrow> nat) \<Rightarrow> Level \<Rightarrow> string \<Rightarrow> string \<Rightarrow> logger \<Rightarrow> result \<times> logger" where
  "queueMsg grow lvl prefix body s = queueMsgDirect grow (logMsg lvl prefix body) s"

subsection \<open>The writer's side\<close>

text \<open>
  \<open>write\<close> (here \<open>write_syslog\<close>, for \<open>write\<close> is a word of the proof language) takes
  the address of the first byte, which panics on an empty buffer, and hands it to
  \<open>csyslog\<close>, which logs the bytes up to the first NUL. \<open>sunk\<close> is the error the sink
  reports (\<open>errno\<close> after the call); the call is recorded whether it reports one or not.
\<close>

definition write_syslog :: "error option \<Rightarrow> ptr \<Rightarrow> logger \<Rightarrow> result \<times> logger" where
  "write_syslog sunk msg s =
     (let m = msgArr s ! msg in
      if bytes m = [] then (Panicked IndexOutOfRange, s)
      else if CHR 0x00 \<notin> set (bytes m) then (Panicked UnterminatedCString, s)
      else
        (let s1 = s\<lparr>syslog_calls := syslog_calls s @
                       [(LOG_USER OR level m, takeWhile (\<lambda>c. c \<noteq> CHR 0x00) (bytes m))]\<rparr>
         in case sunk of
              None \<Rightarrow> (Returned None, s1)
            | Some e \<Rightarrow> (Returned (Some e), s1\<lparr>errCount := errCount s1 + 1\<rparr>)))"

text \<open>
  \<open>writeCustomSocket\<close> writes \<open><priority>\<close> followed by all the bytes of the message. It
  is only called when \<open>customSock\<close> is not nil.
\<close>

definition framed :: "logMessage \<Rightarrow> string" where
  "framed m = ''<'' @ fmt_d (sint (LOG_USER OR level m)) @ ''>'' @ bytes m"

definition writeCustomSocket :: "error option \<Rightarrow> ptr \<Rightarrow> logger \<Rightarrow> result \<times> logger" where
  "writeCustomSocket sunk msg s =
     (case customSock s of
        None \<Rightarrow> (Panicked NilDereference, s)
      | Some c \<Rightarrow>
          (let s1 = s\<lparr>customSock := Some (c\<lparr>writes := writes c @ [framed (msgArr s ! msg)]\<rparr>)\<rparr>
           in case sunk of
                None \<Rightarrow> (Returned None, s1)
              | Some e \<Rightarrow> (Returned (Some e), s1\<lparr>errCount := errCount s1 + 1\<rparr>)))"

text \<open>The body of the loop of \<open>logWriter\<close>, for the message \<open>msg\<close> just received.\<close>

definition logWriter_write :: "error option \<Rightarrow> ptr \<Rightarrow> logger \<Rightarrow> result \<times> logger" where
  "logWriter_write sunk msg s =
     (if customSock s = None then write_syslog sunk msg s else writeCustomSocket sunk msg s)"

definition recycle :: "logMessage \<Rightarrow> logMessage" where
  "recycle m = (if Cap m > MaxFreeMsgSize then zeroMessage else Reset m)"

definition logWriter_recycle :: "ptr \<Rightarrow> logger \<Rightarrow> result \<times> logger" where
  "logWriter_recycle msg s =
     freeMsg msg (s\<lparr>msgArr := (msgArr s)[msg := recycle (msgArr s ! msg)]\<rparr>)"

text \<open>
  After the loop: the socket is closed if there is one; then \<open>wg.Done()\<close>, which
  finds the one that \<open>init\<close> has added.
\<close>

definition logWriter_exit :: "logger \<Rightarrow> logger" where
  "logWriter_exit s =
     (let s1 = (case customSock s of
                  None \<Rightarrow> s
                | Some c \<Rightarrow> s\<lparr>customSock := Some (c\<lparr>conn_closed := True\<rparr>)\<rparr>)
      in s1\<lparr>wg := wg s1 - 1\<rparr>)"

text \<open>
  \<open>for msg := range messages\<close>: the next message when the buffer holds one, the end of
  the loop when it is empty and closed, and waiting otherwise.
\<close>

datatype 'a range_recv = RangeNext 'a "'a chan" | RangeEnd | RangeWait

definition range_recv :: "'a chan \<Rightarrow> 'a range_recv" where
  "range_recv ch =
     (case cbuf ch of
        v # rest \<Rightarrow> RangeNext v (ch\<lparr>cbuf := rest\<rparr>)
      | [] \<Rightarrow> if cclosed ch then RangeEnd else RangeWait)"

subsection \<open>Start and shutdown\<close>

text \<open>
  \<open>init\<close> makes the array, frees every element of it in turn (stopping at the first
  error) and adds one to the wait group for the writer it starts. The number of
  messages is the parameter \<open>n\<close>; the program runs with \<open>n = NumMessages\<close>. The pool
  is open and has room for all of them, so no call of \<open>freeMsg\<close> fails here
  (\<open>init_vars\<close> below).
\<close>

fun init_free :: "ptr list \<Rightarrow> logger \<Rightarrow> logger" where
  "init_free [] s = s"
| "init_free (i # rest) s =
     (case freeMsg i s of
        (Returned None, s1) \<Rightarrow> init_free rest s1
      | (_, s1) \<Rightarrow> s1)"

definition init :: "nat \<Rightarrow> logger \<Rightarrow> logger" where
  "init n s =
     (let s1 = init_free [0..<n] (s\<lparr>msgArr := replicate n zeroMessage\<rparr>)
      in s1\<lparr>wg := wg s1 + 1\<rparr>)"

text \<open>
  \<open>drainTheQueue\<close> in two parts: the critical section, which needs the write lock (no
  reader, no writer) and panics with the lock held when the channel is closed already,
  and the wait for the writer. In Go a caller that waits for the write lock keeps new
  readers out; here they may still enter, which only adds schedules to those the
  program has.
\<close>

definition close_chan :: "'a chan \<Rightarrow> 'a chan" where
  "close_chan ch = ch\<lparr>cclosed := True\<rparr>"

definition drainTheQueue_close :: "logger \<Rightarrow> result \<times> logger" where
  "drainTheQueue_close s =
     (if locked s \<or> readers s \<noteq> 0 then (Blocked, s)
      else let s1 = s\<lparr>locked := True\<rparr>;
               s2 = s1\<lparr>shuttingDown := True\<rparr>
           in if cclosed (messages s2) then (Panicked CloseOfClosedChannel, s2)
              else (Returned None, s2\<lparr>messages := close_chan (messages s2), locked := False\<rparr>))"

definition drainTheQueue_wait :: "logger \<Rightarrow> result \<times> logger" where
  "drainTheQueue_wait s = (if wg s = 0 then (Returned None, s) else (Blocked, s))"

definition drainTheQueue :: "logger \<Rightarrow> result \<times> logger" where
  "drainTheQueue s =
     (case drainTheQueue_close s of
        (Returned _, s1) \<Rightarrow> drainTheQueue_wait s1
      | (r, s1) \<Rightarrow> (r, s1))"

subsection \<open>The goroutines together\<close>

text \<open>
  The program is the writer, any number of producers inside \<open>queueMsgDirect\<close>, and the
  callers of \<open>drainTheQueue\<close> and of the setup functions. A world is the variables
  together with where each goroutine stands: the producers that hold a message (each
  with the \<open>logEntry\<close> of its call), the writer's place in its loop, and how far the call
  of \<open>drainTheQueue\<close> has come. A panic ends the process: \<open>halted\<close>.
\<close>

datatype writer_pc = Receiving | Writing ptr | Recycling ptr | Exited

datatype drain_pc = NotCalled | Waiting | Finished

record world =
  st :: logger
  producers :: "(ptr \<times> string) list"
  writer :: writer_pc
  drain :: drain_pc
  halted :: "fault option"

definition boot :: "nat \<Rightarrow> world" where
  "boot n = \<lparr>st = init n (vars n), producers = [], writer = Receiving,
             drain = NotCalled, halted = None\<rparr>"

text \<open>
  A schedule is a list of actions: which goroutine moves next, and what the world
  outside answers where it is asked. Every action is one of the parts above, so a
  schedule interleaves the goroutines at the channel operations: between two of them a
  goroutine touches only the message it holds, the counters and the mutex it has. An
  action that cannot move (its goroutine waits, or does not exist) has no successor.
  \<open>Resume i\<close> lets the \<open>i\<close>-th producer that holds a message go on.
\<close>

datatype action =
    CallQueueMsgDirect string
  | Resume nat
  | WriterStep "error option"
  | CallDrainTheQueue
  | DrainReturns
  | CallSetCustomSocket "error option"
  | CallSetLogName string "error option"

datatype event =
    Rejected
  | Dropped
  | Acquired ptr
  | Queued ptr logMessage
  | QueueFull ptr
  | Dequeued ptr
  | Wrote ptr logMessage
  | Recycled ptr
  | WriterExit
  | DrainClosed
  | DrainReturned
  | SocketSet
  | NameSet
  | Fault fault

definition panic :: "fault \<Rightarrow> logger \<Rightarrow> world \<Rightarrow> (event \<times> world) option" where
  "panic f s w = Some (Fault f, w\<lparr>st := s, halted := Some f\<rparr>)"

definition step_call :: "string \<Rightarrow> world \<Rightarrow> (event \<times> world) option" where
  "step_call logEntry w =
     (case queueMsgDirect_acquire (st w) of
        Done Blocked s \<Rightarrow> None
      | Done (Panicked f) s \<Rightarrow> panic f s w
      | Done (Returned None) s \<Rightarrow> Some (Dropped, w\<lparr>st := s\<rparr>)
      | Done (Returned (Some e)) s \<Rightarrow> Some (Rejected, w\<lparr>st := s\<rparr>)
      | Holding msg s \<Rightarrow>
          Some (Acquired msg, w\<lparr>st := s, producers := producers w @ [(msg, logEntry)]\<rparr>))"

definition step_resume :: "(nat \<Rightarrow> nat \<Rightarrow> nat) \<Rightarrow> nat \<Rightarrow> world \<Rightarrow> (event \<times> world) option" where
  "step_resume grow i w =
     (if i < length (producers w) then
        (let msg = fst (producers w ! i);
             logEntry = snd (producers w ! i);
             w1 = w\<lparr>producers := take i (producers w) @ drop (Suc i) (producers w)\<rparr>
         in case queueMsgDirect_queue grow logEntry msg (st w) of
              (Blocked, s) \<Rightarrow> None
            | (Panicked f, s) \<Rightarrow> panic f s w1
            | (Returned None, s) \<Rightarrow> Some (Queued msg (msgArr s ! msg), w1\<lparr>st := s\<rparr>)
            | (Returned (Some e), s) \<Rightarrow> Some (QueueFull msg, w1\<lparr>st := s\<rparr>))
      else None)"

definition step_writer :: "error option \<Rightarrow> world \<Rightarrow> (event \<times> world) option" where
  "step_writer sunk w =
     (case writer w of
        Receiving \<Rightarrow>
          (case range_recv (messages (st w)) of
             RangeNext msg ch \<Rightarrow>
               Some (Dequeued msg, w\<lparr>st := (st w)\<lparr>messages := ch\<rparr>, writer := Writing msg\<rparr>)
           | RangeEnd \<Rightarrow> Some (WriterExit, w\<lparr>st := logWriter_exit (st w), writer := Exited\<rparr>)
           | RangeWait \<Rightarrow> None)
      | Writing msg \<Rightarrow>
          (case logWriter_write sunk msg (st w) of
             (Blocked, s) \<Rightarrow> None
           | (Panicked f, s) \<Rightarrow> panic f s w
           | (Returned r, s) \<Rightarrow>
               Some (Wrote msg (msgArr (st w) ! msg), w\<lparr>st := s, writer := Recycling msg\<rparr>))
      | Recycling msg \<Rightarrow>
          (case logWriter_recycle msg (st w) of
             (Blocked, s) \<Rightarrow> None
           | (Panicked f, s) \<Rightarrow> panic f s w
           | (Returned r, s) \<Rightarrow> Some (Recycled msg, w\<lparr>st := s, writer := Receiving\<rparr>))
      | Exited \<Rightarrow> None)"

definition step_drain :: "world \<Rightarrow> (event \<times> world) option" where
  "step_drain w =
     (case drainTheQueue_close (st w) of
        (Blocked, s) \<Rightarrow> None
      | (Panicked f, s) \<Rightarrow> panic f s w
      | (Returned r, s) \<Rightarrow> Some (DrainClosed, w\<lparr>st := s, drain := Waiting\<rparr>))"

definition step_drain_returns :: "world \<Rightarrow> (event \<times> world) option" where
  "step_drain_returns w =
     (if drain w = Waiting then
        (case drainTheQueue_wait (st w) of
           (Returned r, s) \<Rightarrow> Some (DrainReturned, w\<lparr>st := s, drain := Finished\<rparr>)
         | (Panicked f, s) \<Rightarrow> panic f s w
         | (Blocked, s) \<Rightarrow> None)
      else None)"

definition step_setup :: "(logger \<Rightarrow> result \<times> logger) \<Rightarrow> event \<Rightarrow> world \<Rightarrow> (event \<times> world) option" where
  "step_setup f ev w =
     (case f (st w) of
        (Blocked, s) \<Rightarrow> None
      | (Panicked x, s) \<Rightarrow> panic x s w
      | (Returned r, s) \<Rightarrow> Some (ev, w\<lparr>st := s\<rparr>))"

definition step :: "(nat \<Rightarrow> nat \<Rightarrow> nat) \<Rightarrow> action \<Rightarrow> world \<Rightarrow> (event \<times> world) option" where
  "step grow a w =
     (if halted w \<noteq> None then None
      else case a of
             CallQueueMsgDirect logEntry \<Rightarrow> step_call logEntry w
           | Resume i \<Rightarrow> step_resume grow i w
           | WriterStep sunk \<Rightarrow> step_writer sunk w
           | CallDrainTheQueue \<Rightarrow> step_drain w
           | DrainReturns \<Rightarrow> step_drain_returns w
           | CallSetCustomSocket dialed \<Rightarrow> step_setup (SetCustomSocket dialed) SocketSet w
           | CallSetLogName p opened \<Rightarrow> step_setup (SetLogName p opened) NameSet w)"

text \<open>Running a schedule gives the events in order and the world reached.\<close>

fun exec :: "(nat \<Rightarrow> nat \<Rightarrow> nat) \<Rightarrow> action list \<Rightarrow> world \<Rightarrow> (event list \<times> world) option" where
  "exec grow [] w = Some ([], w)"
| "exec grow (a # rest) w =
     (case step grow a w of
        None \<Rightarrow> None
      | Some (ev, w1) \<Rightarrow>
          (case exec grow rest w1 of
             None \<Rightarrow> None
           | Some (evs, w2) \<Rightarrow> Some (ev # evs, w2)))"

text \<open>The messages queued and the messages written, in the order of the events.\<close>

fun queued_of :: "event \<Rightarrow> (ptr \<times> logMessage) list" where
  "queued_of (Queued p m) = [(p, m)]"
| "queued_of _ = []"

fun wrote_of :: "event \<Rightarrow> (ptr \<times> logMessage) list" where
  "wrote_of (Wrote p m) = [(p, m)]"
| "wrote_of _ = []"

definition queued :: "event list \<Rightarrow> (ptr \<times> logMessage) list" where
  "queued evs = concat (map queued_of evs)"

definition wrote :: "event list \<Rightarrow> (ptr \<times> logMessage) list" where
  "wrote evs = concat (map wrote_of evs)"

subsection \<open>Who holds which message\<close>

text \<open>
  The writer holds a message from the receive to the release; \<open>in_hand\<close> is the message
  it has received and not yet written. \<open>owned\<close> lists every pointer the program holds:
  the pool, the queue, the producers that hold one, and the writer.
\<close>

fun held :: "writer_pc \<Rightarrow> ptr list" where
  "held (Writing p) = [p]"
| "held (Recycling p) = [p]"
| "held Receiving = []"
| "held Exited = []"

fun in_hand :: "writer_pc \<Rightarrow> ptr list" where
  "in_hand (Writing p) = [p]"
| "in_hand (Recycling p) = []"
| "in_hand Receiving = []"
| "in_hand Exited = []"

definition owned :: "world \<Rightarrow> ptr list" where
  "owned w = cbuf (freeMessages (st w)) @ cbuf (messages (st w)) @
             map fst (producers w) @ held (writer w)"

text \<open>The messages queued and not yet written, oldest first, with their contents.\<close>

definition pending :: "world \<Rightarrow> (ptr \<times> logMessage) list" where
  "pending w = map (\<lambda>p. (p, msgArr (st w) ! p)) (in_hand (writer w) @ cbuf (messages (st w)))"

text \<open>The events after the last exit of the writer, latest first.\<close>

definition since_exit :: "event list \<Rightarrow> event list" where
  "since_exit evs = takeWhile (\<lambda>ev. ev \<noteq> WriterExit) (rev evs)"

definition sock_closed :: "logger \<Rightarrow> bool" where
  "sock_closed s = (case customSock s of None \<Rightarrow> True | Some c \<Rightarrow> conn_closed c)"

text \<open>
  What the sinks are handed for a message: \<open>csyslog\<close> the facility with the level of the
  message and the bytes up to the first NUL (\<open>syslog_entry\<close>), the socket the frame
  (\<open>framed\<close>). \<open>since_socket\<close> is the events after the last call of
  \<open>SetCustomSocket\<close>, in order, and all the events when there was none.
\<close>

definition syslog_entry :: "logMessage \<Rightarrow> cint \<times> string" where
  "syslog_entry m = (LOG_USER OR level m, takeWhile (\<lambda>c. c \<noteq> CHR 0x00) (bytes m))"

definition since_socket :: "event list \<Rightarrow> event list" where
  "since_socket evs = rev (takeWhile (\<lambda>ev. ev \<noteq> SocketSet) (rev evs))"

text \<open>A growth policy for the examples: the array grows to the length needed.\<close>

definition exact_fit :: "nat \<Rightarrow> nat \<Rightarrow> nat" where
  "exact_fit c n = n"

subsection \<open>Invariants\<close>

text \<open>
  \<open>accounted\<close>: the pointers held are the \<open>n\<close> elements of the array, each once; both
  channels have capacity \<open>n\<close>; the pool is never closed.
\<close>

definition accounted :: "nat \<Rightarrow> world \<Rightarrow> bool" where
  "accounted n w \<longleftrightarrow>
     mset (owned w) = mset [0..<n] \<and>
     ccap (freeMessages (st w)) = n \<and>
     ccap (messages (st w)) = n \<and>
     length (msgArr (st w)) = n \<and>
     \<not> cclosed (freeMessages (st w))"

text \<open>
  \<open>guarded\<close>: what the mutex and the wait group maintain. Every producer that holds a
  message holds the read lock; the write lock is only left held by a panic; the queue is
  closed exactly when the flag is set, and then no producer holds a message; the wait
  group counts the writer.
\<close>

definition guarded :: "world \<Rightarrow> bool" where
  "guarded w \<longleftrightarrow>
     readers (st w) = length (producers w) \<and>
     (locked (st w) \<longrightarrow> halted w \<noteq> None) \<and>
     cclosed (messages (st w)) = shuttingDown (st w) \<and>
     (shuttingDown (st w) \<longrightarrow> producers w = []) \<and>
     (drain w = NotCalled) = (\<not> shuttingDown (st w)) \<and>
     wg (st w) = (if writer w = Exited then 0 else 1) \<and>
     (writer w = Exited \<longrightarrow> cbuf (messages (st w)) = [] \<and> cclosed (messages (st w))) \<and>
     (drain w = Finished \<longrightarrow> writer w = Exited)"

text \<open>
  \<open>tidy\<close>: a message in the pool or in a producer's hands is empty; a message in the
  queue or in the writer's hand ends in a NUL.
\<close>

definition tidy :: "world \<Rightarrow> bool" where
  "tidy w \<longleftrightarrow>
     (\<forall>p \<in> set (cbuf (freeMessages (st w)) @ map fst (producers w)).
        bytes (msgArr (st w) ! p) = []) \<and>
     (\<forall>p \<in> set (in_hand (writer w) @ cbuf (messages (st w))).
        CHR 0x00 \<in> set (bytes (msgArr (st w) ! p)))"

text \<open>
  \<open>traced\<close>: what the events say about the world. Every message queued has been
  written or is pending, in the same order; the queue was never found full; the only
  panic is that of closing the closed channel; the socket the writer found at its exit
  is closed.
\<close>

definition traced :: "event list \<Rightarrow> world \<Rightarrow> bool" where
  "traced evs w \<longleftrightarrow>
     queued evs = wrote evs @ pending w \<and>
     (\<forall>p. QueueFull p \<notin> set evs) \<and>
     (\<forall>f. Fault f \<in> set evs \<longrightarrow> f = CloseOfClosedChannel) \<and>
     (halted w = None) = (\<forall>f. Fault f \<notin> set evs) \<and>
     (WriterExit \<in> set evs) = (writer w = Exited) \<and>
     (DrainClosed \<in> set evs) = (drain w \<noteq> NotCalled) \<and>
     (DrainReturned \<in> set evs) = (drain w = Finished) \<and>
     (writer w = Exited \<and> SocketSet \<notin> set (since_exit evs) \<longrightarrow> sock_closed (st w))"

text \<open>
  \<open>delivered\<close>: what the events say about the sinks. While \<open>SetCustomSocket\<close> has never
  been called there is no socket, and the calls of \<open>csyslog\<close> are the messages written,
  one call each, in order. After a call of \<open>SetCustomSocket\<close> the sink in use holds
  the messages written since that call, one record each, in order: the strings written
  to the socket when the dial succeeded, the latest calls of \<open>csyslog\<close> when it failed.
  (\<open>SetCustomSocket\<close> overwrites the variable; the program forgets the socket it
  replaces without closing it, and so does the state here.)
\<close>

definition delivered :: "event list \<Rightarrow> world \<Rightarrow> bool" where
  "delivered evs w \<longleftrightarrow>
     (SocketSet \<notin> set evs \<longrightarrow>
        customSock (st w) = None \<and>
        syslog_calls (st w) = map (syslog_entry \<circ> snd) (wrote evs)) \<and>
     (customSock (st w) = None \<longrightarrow>
        (\<exists>older. syslog_calls (st w) =
                    older @ map (syslog_entry \<circ> snd) (wrote (since_socket evs)))) \<and>
     (\<forall>c. customSock (st w) = Some c \<longrightarrow>
        writes c = map (framed \<circ> snd) (wrote (since_socket evs)))"

subsection \<open>The spec's words, and schedules for the examples\<close>

text \<open>
  The spec calls the first part of a rendered line the bracketed level tag:
  \<open>[Error]\<close> for the severity Error. \<open>bracketed\<close> follows the spec's words, not the
  source, and is compared with the table \<open>levelMapFmt\<close> below.
\<close>

fun levelName :: "Level \<Rightarrow> string" where
  "levelName Access = ''Access''"
| "levelName Off = ''Off''"
| "levelName Panic = ''Panic''"
| "levelName Error = ''Error''"
| "levelName Warn = ''Warn''"
| "levelName Info = ''Info''"
| "levelName Debug = ''Debug''"

definition bracketed :: "Level \<Rightarrow> string" where
  "bracketed lvl = ''['' @ levelName lvl @ '']''"

text \<open>
  The spec's scenario D: a socket is set, \<open>"ready"\<close> is logged at the severity Info with
  an empty prefix, and the writer receives and writes the message.
\<close>

definition ready_schedule :: "action list" where
  "ready_schedule =
     [CallSetCustomSocket None, CallQueueMsgDirect (logMsg Info [] ''ready''), Resume 0,
      WriterStep None, WriterStep None]"

text \<open>The spec's round trip: \<open>"disk full"\<close> logged at Error with the prefix \<open>"svc1"\<close>.\<close>

definition disk_full_call :: "result \<times> logger" where
  "disk_full_call =
     queueMsg exact_fit Error ''svc1'' ''disk full'' (init NumMessages (vars NumMessages))"

text \<open>One message through the whole cycle: acquired, queued, received, written, released.\<close>

definition one_cycle :: "action list" where
  "one_cycle =
     [CallQueueMsgDirect ''x'', Resume 0, WriterStep None, WriterStep None, WriterStep None]"

text \<open>
  A run with a socket and two producers that overtake each other; the shutdown comes
  while one message is in the writer's hand and one in the queue, and the second write
  fails.
\<close>

definition shutdown_run :: "action list" where
  "shutdown_run =
     [CallSetCustomSocket None, CallQueueMsgDirect ''x'', CallQueueMsgDirect ''y'', Resume 1,
      Resume 0, WriterStep None, CallDrainTheQueue, WriterStep None, WriterStep None,
      WriterStep None, WriterStep (Some ErrExternal), WriterStep None, WriterStep None,
      DrainReturns]"

text \<open>The same run without the call of \<open>SetCustomSocket\<close>: the sink is \<open>csyslog\<close>.\<close>

definition syslog_run :: "action list" where
  "syslog_run = tl shutdown_run"

text \<open>A first shutdown, on a program that has logged nothing.\<close>

definition first_shutdown :: "action list" where
  "first_shutdown = [CallDrainTheQueue, WriterStep None, DrainReturns]"

text \<open>A world whose pool is empty: the variables before \<open>init\<close> has filled the pool.\<close>

definition empty_pool :: world where
  "empty_pool = \<lparr>st = vars 2, producers = [], writer = Receiving, drain = NotCalled,
                  halted = None\<rparr>"

text \<open>
  A state in which the accounting is broken already: the one message is both in the
  pool and in the queue, so that the queue is full while a message is free. No run of
  the program reaches it; it is the only kind of state in which \<open>queueMsgDirect\<close> returns
  \<open>ErrLogFullBuf\<close>.
\<close>

definition overfull :: logger where
  "overfull = (vars 1)\<lparr>
     messages := \<lparr>cbuf = [0], ccap = 1, cclosed = False\<rparr>,
     freeMessages := \<lparr>cbuf = [0], ccap = 1, cclosed = False\<rparr>,
     msgArr := [zeroMessage]\<rparr>"

text \<open>
  A line of 8 KiB, which with its terminator needs a buffer above the threshold, and
  the schedule that brings a line to the point where the writer recycles its message.
\<close>

definition big_entry :: string where
  "big_entry = replicate (8 * 1024) (CHR ''a'')"

definition to_recycling :: "string \<Rightarrow> action list" where
  "to_recycling logEntry =
     [CallQueueMsgDirect logEntry, Resume 0, WriterStep None, WriterStep None]"

text \<open>
  The steps the writer still has to take before it leaves its loop, once the queue is
  closed: three for every message in the queue (receive, write, release), those left for
  the message in its hands, and the exit.
\<close>

fun writer_left :: "writer_pc \<Rightarrow> nat" where
  "writer_left Receiving = 1"
| "writer_left (Writing p) = 3"
| "writer_left (Recycling p) = 2"
| "writer_left Exited = 0"

definition writer_work :: "world \<Rightarrow> nat" where
  "writer_work w = 3 * length (cbuf (messages (st w))) + writer_left (writer w)"

section \<open>Properties\<close>

subsection \<open>Lists\<close>

lemma mset_remove_nth:
  "i < length xs \<Longrightarrow> mset (take i xs @ drop (Suc i) xs) + {#xs ! i#} = mset xs"
  by (metis add_mset_add_single id_take_nth_drop mset.simps(2) mset_append union_mset_add_mset_right)

lemma distinct_nth_notin_rest:
  assumes "distinct xs" "i < length xs"
  shows "xs ! i \<notin> set (take i xs @ drop (Suc i) xs)"
proof -
  have "xs = take i xs @ xs ! i # drop (Suc i) xs"
    using assms(2) by (rule id_take_nth_drop)
  then have "distinct (take i xs @ xs ! i # drop (Suc i) xs)"
    using assms(1) by simp
  then show ?thesis by auto
qed

lemma map_nth_update_notin:
  "msg \<notin> set ps \<Longrightarrow> map (\<lambda>p. (p, xs[msg := v] ! p)) ps = map (\<lambda>p. (p, xs ! p)) ps"
  by (induction ps) auto

lemma upt_2: "[0..<2] = [0, 1]"
  by (simp add: upt_rec)

lemma upt_Cons: "0 < n \<Longrightarrow> [0..<n] = 0 # [1..<n]"
  by (simp add: upt_rec)

lemma queued_snoc: "queued (evs @ [ev]) = queued evs @ queued_of ev"
  by (simp add: queued_def)

lemma wrote_snoc: "wrote (evs @ [ev]) = wrote evs @ wrote_of ev"
  by (simp add: wrote_def)

lemma since_exit_snoc:
  "since_exit (evs @ [ev]) = (if ev = WriterExit then [] else ev # since_exit evs)"
  by (simp add: since_exit_def)

lemma wrote_append: "wrote (xs @ ys) = wrote xs @ wrote ys"
  by (simp add: wrote_def)

lemma since_socket_snoc:
  "since_socket (evs @ [ev]) = (if ev = SocketSet then [] else since_socket evs @ [ev])"
  by (simp add: since_socket_def)

lemma since_socket_append:
  "SocketSet \<notin> set evs' \<Longrightarrow> since_socket (evs @ evs') = since_socket evs @ evs'"
  by (induction evs' rule: rev_induct) (auto simp: since_socket_snoc simp flip: append_assoc)

subsection \<open>The functions, one by one\<close>

lemma acquire_eq:
  "queueMsgDirect_acquire s =
     (if locked s then Done Blocked s
      else if shuttingDown s then Done (Returned (Some ErrUnavailable)) s
      else case cbuf (freeMessages s) of
             p # rest \<Rightarrow>
               Holding p (s\<lparr>readers := readers s + 1, logCount := logCount s + 1,
                           freeMessages := (freeMessages s)\<lparr>cbuf := rest\<rparr>\<rparr>)
           | [] \<Rightarrow>
               if cclosed (freeMessages s)
               then Done (Panicked NilDereference) (s\<lparr>logCount := logCount s + 1\<rparr>)
               else Done (Returned None)
                      (s\<lparr>logCount := logCount s + 1, dropCount := dropCount s + 1\<rparr>))"
  by (simp add: queueMsgDirect_acquire_def RLock_def RUnlock_def select_recv_def Let_def
      split: list.split)

lemma render_bytes: "bytes (render grow e m) = bytes m @ e @ [CHR 0x00]"
  by (simp add: render_def WriteByte_def Write_def Let_def)

lemma render_level: "level (render grow e m) = LOG_DEBUG"
  by (simp add: render_def WriteByte_def Write_def Let_def mapIndex_def levelSysLog_def)

lemma init_free_append:
  "length (cbuf (freeMessages s)) + length xs \<le> ccap (freeMessages s) \<Longrightarrow>
   \<not> cclosed (freeMessages s) \<Longrightarrow>
   init_free xs s = s\<lparr>freeMessages := (freeMessages s)\<lparr>cbuf := cbuf (freeMessages s) @ xs\<rparr>\<rparr>"
proof (induction xs arbitrary: s)
  case Nil
  then show ?case by simp
next
  case (Cons x xs)
  then show ?case
    by (simp add: freeMsg_def select_send_def)
qed

lemma init_vars:
  "init n (vars n) = (vars n)\<lparr>msgArr := replicate n zeroMessage,
      freeMessages := \<lparr>cbuf = [0..<n], ccap = n, cclosed = False\<rparr>, wg := 1\<rparr>"
  by (simp add: init_def Let_def init_free_append vars_def make_chan_def)

lemma boot_eq:
  "boot n = \<lparr>st = (vars n)\<lparr>msgArr := replicate n zeroMessage,
      freeMessages := \<lparr>cbuf = [0..<n], ccap = n, cclosed = False\<rparr>, wg := 1\<rparr>,
    producers = [], writer = Receiving, drain = NotCalled, halted = None\<rparr>"
  by (simp add: boot_def init_vars)

lemma logMsg_bracketed:
  "logMsg lvl prefix body = bracketed lvl @ ''  '' @ prefix @ '' '' @ body"
  by (cases lvl) (simp_all add: logMsg_def mapIndex_def levelMapFmt_def bracketed_def)

lemma bytes_recycle: "bytes (recycle m) = []"
  by (simp add: recycle_def zeroMessage_def Reset_def)

lemma nul_render: "CHR 0x00 \<in> set (bytes (render grow e m))"
  by (simp add: render_bytes)

lemma logWriter_write_frame:
  assumes "logWriter_write sunk msg s = (r, s')"
  shows "messages s' = messages s \<and> freeMessages s' = freeMessages s \<and>
         msgArr s' = msgArr s \<and> readers s' = readers s \<and> locked s' = locked s \<and>
         shuttingDown s' = shuttingDown s \<and> wg s' = wg s \<and>
         logCount s' = logCount s \<and> dropCount s' = dropCount s"
  using assms
  by (auto simp: logWriter_write_def write_syslog_def writeCustomSocket_def Let_def
      split: if_splits option.splits)

lemma logWriter_exit_frame:
  "messages (logWriter_exit s) = messages s \<and> freeMessages (logWriter_exit s) = freeMessages s \<and>
   msgArr (logWriter_exit s) = msgArr s \<and> readers (logWriter_exit s) = readers s \<and>
   locked (logWriter_exit s) = locked s \<and> shuttingDown (logWriter_exit s) = shuttingDown s \<and>
   wg (logWriter_exit s) = wg s - 1 \<and>
   logCount (logWriter_exit s) = logCount s \<and> dropCount (logWriter_exit s) = dropCount s \<and>
   errCount (logWriter_exit s) = errCount s"
  by (simp add: logWriter_exit_def Let_def split: option.split)

lemma logWriter_write_no_fault:
  assumes "CHR 0x00 \<in> set (bytes (msgArr s ! msg))"
  shows "logWriter_write sunk msg s \<noteq> (Panicked f, s')"
proof -
  have "bytes (msgArr s ! msg) \<noteq> []" using assms by auto
  then show ?thesis
    using assms
    by (auto simp: logWriter_write_def write_syslog_def writeCustomSocket_def Let_def
        split: option.splits)
qed

lemma sock_closed_exit: "sock_closed (logWriter_exit s)"
  by (simp add: sock_closed_def logWriter_exit_def Let_def split: option.split)

lemma setup_frame:
  assumes "SetCustomSocket dialed s = (r, s') \<or> SetLogName p opened s = (r, s')"
  shows "(\<exists>e. r = Returned e) \<and>
     messages s' = messages s \<and> freeMessages s' = freeMessages s \<and>
     msgArr s' = msgArr s \<and> readers s' = readers s \<and> locked s' = locked s \<and>
     shuttingDown s' = shuttingDown s \<and> wg s' = wg s \<and>
     logCount s' = logCount s \<and> dropCount s' = dropCount s"
  using assms
  by (auto simp: SetCustomSocket_def SetLogName_def Let_def split: option.splits)

lemma SetLogName_sock: "SetLogName p opened s = (r, s') \<Longrightarrow> customSock s' = customSock s"
  by (auto simp: SetLogName_def Let_def split: option.splits)

lemma logWriter_write_sink:
  assumes "logWriter_write sunk msg s = (Returned r, s')"
  shows "case customSock s of
           None \<Rightarrow>
             customSock s' = None \<and>
             syslog_calls s' = syslog_calls s @ [syslog_entry (msgArr s ! msg)]
         | Some c \<Rightarrow>
             customSock s' = Some (c\<lparr>writes := writes c @ [framed (msgArr s ! msg)]\<rparr>) \<and>
             syslog_calls s' = syslog_calls s"
  using assms
  by (auto simp: logWriter_write_def write_syslog_def writeCustomSocket_def syslog_entry_def
      Let_def split: if_splits option.splits)

lemma logWriter_exit_sink:
  "syslog_calls (logWriter_exit s) = syslog_calls s \<and>
   (case customSock s of
      None \<Rightarrow> customSock (logWriter_exit s) = None
    | Some c \<Rightarrow> customSock (logWriter_exit s) = Some (c\<lparr>conn_closed := True\<rparr>))"
  by (simp add: logWriter_exit_def Let_def split: option.split)

lemma SetCustomSocket_sink:
  assumes "SetCustomSocket dialed s = (r, s')"
  shows "syslog_calls s' = syslog_calls s \<and>
         (\<forall>c. customSock s' = Some c \<longrightarrow> writes c = [])"
  using assms by (auto simp: SetCustomSocket_def split: option.splits)

lemma SetLogName_sink:
  assumes "SetLogName p opened s = (r, s')"
  shows "syslog_calls s' = syslog_calls s \<and> customSock s' = customSock s"
  using assms by (auto simp: SetLogName_def Let_def split: option.splits)

lemma queueMsgDirect_queued:
  assumes "\<not> locked s" "\<not> shuttingDown s" "cbuf (freeMessages s) = msg # rest"
    and "\<not> cclosed (messages s)" "length (cbuf (messages s)) < ccap (messages s)"
  shows "\<exists>s'. queueMsgDirect grow e s = (Returned None, s') \<and>
           cbuf (messages s') = cbuf (messages s) @ [msg] \<and>
           cbuf (freeMessages s') = rest \<and>
           msgArr s' = (msgArr s)[msg := render grow e (msgArr s ! msg)] \<and>
           dropCount s' = dropCount s \<and> errCount s' = errCount s \<and>
           logCount s' = logCount s + 1"
  using assms
  by (simp add: queueMsgDirect_def acquire_eq queueMsgDirect_queue_def select_send_def
      RUnlock_def Let_def)

lemma queueMsgDirect_unavailable:
  assumes "\<not> locked s" "shuttingDown s"
  shows "queueMsgDirect grow e s = (Returned (Some ErrUnavailable), s)"
  using assms by (simp add: queueMsgDirect_def acquire_eq)

lemma freeMsg_counters:
  "dropCount (snd (freeMsg msg s)) = dropCount s \<and>
   logCount (snd (freeMsg msg s)) = logCount s \<and>
   errCount (snd (freeMsg msg s)) =
     errCount s + (if fst (freeMsg msg s) = Returned (Some ErrFreeMessageOverflow) then 1 else 0)"
  by (simp add: freeMsg_def select_send_def)

lemma queue_counters:
  "dropCount (snd (queueMsgDirect_queue grow e msg s)) = dropCount s \<and>
   logCount (snd (queueMsgDirect_queue grow e msg s)) = logCount s \<and>
   errCount (snd (queueMsgDirect_queue grow e msg s)) =
     errCount s +
       (if cclosed (messages s) \<or> length (cbuf (messages s)) < ccap (messages s) then 0
        else if cclosed (freeMessages s) \<or> length (cbuf (freeMessages s)) < ccap (freeMessages s)
        then 1 else 2)"
  by (simp add: queueMsgDirect_queue_def freeMsg_def select_send_def RUnlock_def Let_def)

lemma queueMsgDirect_dropCount:
  "dropCount (snd (queueMsgDirect grow e s)) =
     dropCount s +
       (if \<not> locked s \<and> \<not> shuttingDown s \<and> cbuf (freeMessages s) = [] \<and>
           \<not> cclosed (freeMessages s)
        then 1 else 0)"
  by (simp add: queueMsgDirect_def acquire_eq queue_counters split: list.split)

lemma write_counters:
  "dropCount (snd (write_syslog sunk msg s)) = dropCount s \<and>
   dropCount (snd (writeCustomSocket sunk msg s)) = dropCount s \<and>
   logCount (snd (write_syslog sunk msg s)) = logCount s \<and>
   logCount (snd (writeCustomSocket sunk msg s)) = logCount s \<and>
   errCount (snd (write_syslog sunk msg s)) =
     errCount s + (case fst (write_syslog sunk msg s) of Returned (Some e) \<Rightarrow> 1 | _ \<Rightarrow> 0) \<and>
   errCount (snd (writeCustomSocket sunk msg s)) =
     errCount s + (case fst (writeCustomSocket sunk msg s) of Returned (Some e) \<Rightarrow> 1 | _ \<Rightarrow> 0)"
  by (simp add: write_syslog_def writeCustomSocket_def Let_def split: option.split)

lemma setup_counters:
  "dropCount (snd (SetLogName p opened s)) = dropCount s \<and>
   dropCount (snd (SetCustomSocket dialed s)) = dropCount s \<and>
   logCount (snd (SetLogName p opened s)) = logCount s \<and>
   logCount (snd (SetCustomSocket dialed s)) = logCount s \<and>
   errCount (snd (SetLogName p opened s)) = errCount s + (if opened = None then 0 else 1) \<and>
   errCount (snd (SetCustomSocket dialed s)) = errCount s"
  by (simp add: SetLogName_def SetCustomSocket_def Let_def split: option.split)

lemma drain_counters:
  "dropCount (snd (drainTheQueue s)) = dropCount s \<and>
   errCount (snd (drainTheQueue s)) = errCount s \<and>
   dropCount (snd (drainTheQueue_close s)) = dropCount s"
  by (simp add: drainTheQueue_def drainTheQueue_close_def drainTheQueue_wait_def Let_def)

lemma init_free_dropCount: "dropCount (init_free xs s) = dropCount s"
proof (induction xs arbitrary: s)
  case Nil
  then show ?case by simp
next
  case (Cons x xs)
  obtain r s1 where f: "freeMsg x s = (r, s1)" by (cases "freeMsg x s")
  then have d: "dropCount s1 = dropCount s" using freeMsg_counters [of x s] by simp
  show ?case
    using f d Cons.IH [of s1]
    by (simp split: result.split option.split)
qed

lemma init_dropCount: "dropCount (init n s) = dropCount s"
  by (simp add: init_def Let_def init_free_dropCount)

subsection \<open>The invariants hold along every schedule\<close>

lemma accounted_boot: "accounted n (boot n)"
  unfolding boot_def init_vars by (simp add: accounted_def owned_def vars_def make_chan_def)

lemma guarded_boot: "guarded (boot n)"
  unfolding boot_def init_vars by (simp add: guarded_def vars_def make_chan_def)

lemma tidy_boot: "tidy (boot n)"
  unfolding boot_def init_vars
  by (simp add: tidy_def vars_def make_chan_def zeroMessage_def)

lemma traced_boot: "traced [] (boot n)"
  unfolding boot_def init_vars
  by (simp add: traced_def queued_def wrote_def pending_def vars_def make_chan_def)

lemma guardedD:
  assumes "guarded w"
  shows "readers (st w) = length (producers w)"
    and "locked (st w) \<Longrightarrow> halted w \<noteq> None"
    and "cclosed (messages (st w)) = shuttingDown (st w)"
    and "shuttingDown (st w) \<Longrightarrow> producers w = []"
    and "(drain w = NotCalled) = (\<not> shuttingDown (st w))"
    and "wg (st w) = (if writer w = Exited then 0 else 1)"
    and "writer w = Exited \<Longrightarrow> cbuf (messages (st w)) = [] \<and> cclosed (messages (st w))"
    and "drain w = Finished \<Longrightarrow> writer w = Exited"
  using assms by (auto simp: guarded_def)

lemma accountedD:
  assumes "accounted n w"
  shows "mset (owned w) = mset [0..<n]"
    and "ccap (freeMessages (st w)) = n"
    and "ccap (messages (st w)) = n"
    and "length (msgArr (st w)) = n"
    and "\<not> cclosed (freeMessages (st w))"
  using assms by (simp_all add: accounted_def)

lemma tracedD:
  assumes "traced evs w"
  shows "queued evs = wrote evs @ pending w"
    and "QueueFull p \<notin> set evs"
    and "Fault f \<in> set evs \<Longrightarrow> f = CloseOfClosedChannel"
    and "(halted w = None) = (\<forall>f. Fault f \<notin> set evs)"
    and "(WriterExit \<in> set evs) = (writer w = Exited)"
    and "(DrainClosed \<in> set evs) = (drain w \<noteq> NotCalled)"
    and "(DrainReturned \<in> set evs) = (drain w = Finished)"
    and "writer w = Exited \<Longrightarrow> SocketSet \<notin> set (since_exit evs) \<Longrightarrow> sock_closed (st w)"
  using assms by (auto simp: traced_def)

lemma accounted_length:
  assumes "accounted n w"
  shows "length (cbuf (freeMessages (st w))) + length (cbuf (messages (st w))) +
         length (producers w) + length (held (writer w)) = n"
proof -
  have "length (owned w) = length [0..<n]"
    using assms by (metis accounted_def mset_eq_length)
  then show ?thesis by (simp add: owned_def)
qed

lemma accounted_distinct: "accounted n w \<Longrightarrow> distinct (owned w)"
  by (metis accounted_def distinct_upt mset_eq_imp_distinct_iff)

lemma accounted_set: "accounted n w \<Longrightarrow> set (owned w) = {0..<n}"
  by (metis accounted_def mset_eq_setD set_upt)

lemma producer_owned:
  assumes "accounted n w" "i < length (producers w)"
  shows "fst (producers w ! i) < n"
proof -
  have "fst (producers w ! i) \<in> set (owned w)"
    using assms(2) by (auto simp: owned_def intro!: image_eqI [where x = "producers w ! i"])
  then show ?thesis using accounted_set [OF assms(1)] by simp
qed

lemma step_halted: "step grow a w = Some (ev, w') \<Longrightarrow> halted w = None"
  by (auto simp: step_def split: if_splits)

lemma step_call_cases:
  assumes "guarded w" "accounted n w" "halted w = None"
  shows "step_call e w =
     (if shuttingDown (st w) then Some (Rejected, w)
      else case cbuf (freeMessages (st w)) of
             [] \<Rightarrow> Some (Dropped, w\<lparr>st := (st w)\<lparr>logCount := logCount (st w) + 1,
                                                  dropCount := dropCount (st w) + 1\<rparr>\<rparr>)
           | p # rest \<Rightarrow>
               Some (Acquired p,
                 w\<lparr>st := (st w)\<lparr>readers := readers (st w) + 1,
                                  logCount := logCount (st w) + 1,
                                  freeMessages := (freeMessages (st w))\<lparr>cbuf := rest\<rparr>\<rparr>,
                   producers := producers w @ [(p, e)]\<rparr>))"
  using assms
  by (simp add: step_call_def acquire_eq guarded_def accounted_def split: list.split)

lemma step_call_inv:
  assumes "guarded w" "accounted n w" "halted w = None" "step_call e w = Some (ev, w')"
  shows "guarded w' \<and> accounted n w'"
  using assms(4) unfolding step_call_cases [OF assms(1-3)]
  using assms(1-3)
  by (auto simp: guarded_def accounted_def owned_def split: if_splits list.splits)

lemma step_resume_cases:
  assumes "guarded w" "accounted n w" "halted w = None" "i < length (producers w)"
  shows "step_resume grow i w =
     Some (Queued (fst (producers w ! i))
             (render grow (snd (producers w ! i)) (msgArr (st w) ! fst (producers w ! i))),
           w\<lparr>producers := take i (producers w) @ drop (Suc i) (producers w),
             st := (st w)\<lparr>
               msgArr := (msgArr (st w))[fst (producers w ! i) :=
                 render grow (snd (producers w ! i)) (msgArr (st w) ! fst (producers w ! i))],
               messages := (messages (st w))\<lparr>cbuf := cbuf (messages (st w)) @ [fst (producers w ! i)]\<rparr>,
               readers := readers (st w) - 1\<rparr>\<rparr>)"
proof -
  have open_q: "\<not> cclosed (messages (st w))"
    using assms(1,4) by (auto simp: guarded_def)
  have room: "length (cbuf (messages (st w))) < ccap (messages (st w))"
    using accounted_length [OF assms(2)] assms(2,4) by (simp add: accounted_def)
  have "fst (producers w ! i) < length (msgArr (st w))"
    using producer_owned [OF assms(2,4)] assms(2) by (simp add: accounted_def)
  then show ?thesis
    using open_q room assms(4)
    by (simp add: step_resume_def queueMsgDirect_queue_def select_send_def Let_def RUnlock_def)
qed

lemma step_resume_inv:
  assumes "guarded w" "accounted n w" "halted w = None" "step_resume grow i w = Some (ev, w')"
  shows "guarded w' \<and> accounted n w'"
proof -
  have i: "i < length (producers w)"
    using assms(4) by (auto simp: step_resume_def split: if_splits)
  have m: "mset (map fst (take i (producers w) @ drop (Suc i) (producers w))) + {#fst (producers w ! i)#}
         = mset (map fst (producers w))"
    using mset_remove_nth [of i "map fst (producers w)"] i
    by (simp add: take_map drop_map)
  have sd: "\<not> shuttingDown (st w)"
    using assms(1) i by (auto simp: guarded_def)
  note w' = assms(4) [unfolded step_resume_cases [OF assms(1-3) i], simplified]
  have "mset (owned w') =
        mset (cbuf (freeMessages (st w))) + mset (cbuf (messages (st w))) +
        (mset (map fst (take i (producers w) @ drop (Suc i) (producers w))) + {#fst (producers w ! i)#}) +
        mset (held (writer w))"
    using w' by (auto simp: owned_def)
  then have "mset (owned w') = mset (owned w)"
    unfolding m by (simp add: owned_def)
  then have "accounted n w'"
    using assms(2) w' by (auto simp: accounted_def)
  moreover have "guarded w'"
    using assms(1) w' i sd by (auto simp: guarded_def)
  ultimately show ?thesis by simp
qed

lemma step_writer_receiving:
  assumes "writer w = Receiving"
  shows "step_writer sunk w =
     (case cbuf (messages (st w)) of
        msg # rest \<Rightarrow>
          Some (Dequeued msg,
            w\<lparr>st := (st w)\<lparr>messages := (messages (st w))\<lparr>cbuf := rest\<rparr>\<rparr>, writer := Writing msg\<rparr>)
      | [] \<Rightarrow>
          if cclosed (messages (st w))
          then Some (WriterExit, w\<lparr>st := logWriter_exit (st w), writer := Exited\<rparr>)
          else None)"
  using assms by (simp add: step_writer_def range_recv_def split: list.split)

lemma step_writer_inv_receiving:
  assumes "guarded w" "accounted n w" "writer w = Receiving" "step_writer sunk w = Some (ev, w')"
  shows "guarded w' \<and> accounted n w'"
proof (cases "cbuf (messages (st w))")
  case Nil
  with assms(4) have w': "w' = w\<lparr>st := logWriter_exit (st w), writer := Exited\<rparr>"
    and cl: "cclosed (messages (st w))"
    by (auto simp: step_writer_receiving [OF assms(3)] split: if_splits)
  have "guarded w'"
    using guardedD [OF assms(1)] assms(3) Nil cl
    by (auto simp: guarded_def w' logWriter_exit_frame)
  moreover have "accounted n w'"
    using accountedD [OF assms(2)] assms(3)
    by (simp add: accounted_def owned_def w' logWriter_exit_frame)
  ultimately show ?thesis by simp
next
  case (Cons msg rest)
  with assms(4) have w': "w' = w\<lparr>st := (st w)\<lparr>messages := (messages (st w))\<lparr>cbuf := rest\<rparr>\<rparr>,
                                  writer := Writing msg\<rparr>"
    by (auto simp: step_writer_receiving [OF assms(3)])
  have "guarded w'"
    using guardedD [OF assms(1)] assms(3)
    by (auto simp: guarded_def w')
  moreover have "accounted n w'"
    using accountedD [OF assms(2)] assms(3) Cons
    by (simp add: accounted_def owned_def w')
  ultimately show ?thesis by simp
qed

lemma step_writer_inv_writing:
  assumes "guarded w" "accounted n w" "writer w = Writing msg" "step_writer sunk w = Some (ev, w')"
  shows "guarded w' \<and> accounted n w'"
proof -
  obtain r s where ws: "logWriter_write sunk msg (st w) = (r, s)"
    by (cases "logWriter_write sunk msg (st w)")
  note fr = logWriter_write_frame [OF ws]
  from assms(3,4) ws
  have w': "st w' = s \<and> producers w' = producers w \<and> drain w' = drain w \<and>
            (writer w' = Writing msg \<and> halted w' \<noteq> None \<or> writer w' = Recycling msg \<and> halted w' = halted w)"
    by (cases r) (auto simp: step_writer_def panic_def)
  have "guarded w'"
    using guardedD [OF assms(1)] assms(3) fr w'
    by (auto simp: guarded_def)
  moreover have "accounted n w'"
    using accountedD [OF assms(2)] assms(3) fr w'
    by (auto simp: accounted_def owned_def)
  ultimately show ?thesis by simp
qed

lemma step_writer_recycling:
  assumes "accounted n w" "writer w = Recycling msg"
  shows "step_writer sunk w =
     Some (Recycled msg,
       w\<lparr>st := (st w)\<lparr>msgArr := (msgArr (st w))[msg := recycle (msgArr (st w) ! msg)],
                        freeMessages := (freeMessages (st w))\<lparr>cbuf := cbuf (freeMessages (st w)) @ [msg]\<rparr>\<rparr>,
         writer := Receiving\<rparr>)"
proof -
  have room: "length (cbuf (freeMessages (st w))) < ccap (freeMessages (st w))"
    using accounted_length [OF assms(1)] accountedD [OF assms(1)] assms(2) by simp
  show ?thesis
    using assms(2) room accountedD(5) [OF assms(1)]
    by (simp add: step_writer_def logWriter_recycle_def freeMsg_def select_send_def)
qed

lemma step_writer_inv_recycling:
  assumes "guarded w" "accounted n w" "writer w = Recycling msg" "step_writer sunk w = Some (ev, w')"
  shows "guarded w' \<and> accounted n w'"
proof -
  from assms(4) have w': "w' = w\<lparr>st := (st w)\<lparr>msgArr := (msgArr (st w))[msg := recycle (msgArr (st w) ! msg)],
                        freeMessages := (freeMessages (st w))\<lparr>cbuf := cbuf (freeMessages (st w)) @ [msg]\<rparr>\<rparr>,
         writer := Receiving\<rparr>"
    by (simp add: step_writer_recycling [OF assms(2,3)])
  have "guarded w'"
    using guardedD [OF assms(1)] assms(3)
    by (auto simp: guarded_def w')
  moreover have "accounted n w'"
    using accountedD [OF assms(2)] assms(3)
    by (simp add: accounted_def owned_def w')
  ultimately show ?thesis by simp
qed

lemma step_writer_inv:
  assumes "guarded w" "accounted n w" "step_writer sunk w = Some (ev, w')"
  shows "guarded w' \<and> accounted n w'"
proof (cases "writer w")
  case Receiving
  then show ?thesis using assms step_writer_inv_receiving by blast
next
  case (Writing msg)
  then show ?thesis using assms step_writer_inv_writing by blast
next
  case (Recycling msg)
  then show ?thesis using assms step_writer_inv_recycling by blast
next
  case Exited
  then show ?thesis using assms(3) by (simp add: step_writer_def)
qed

lemma step_drain_cases:
  "step_drain w =
     (if locked (st w) \<or> readers (st w) \<noteq> 0 then None
      else if cclosed (messages (st w))
      then Some (Fault CloseOfClosedChannel,
             w\<lparr>st := (st w)\<lparr>locked := True, shuttingDown := True\<rparr>,
               halted := Some CloseOfClosedChannel\<rparr>)
      else Some (DrainClosed,
             w\<lparr>st := (st w)\<lparr>shuttingDown := True, messages := (messages (st w))\<lparr>cclosed := True\<rparr>\<rparr>,
               drain := Waiting\<rparr>))"
  by (simp add: step_drain_def drainTheQueue_close_def close_chan_def panic_def Let_def)

lemma step_drain_inv:
  assumes "guarded w" "accounted n w" "step_drain w = Some (ev, w')"
  shows "guarded w' \<and> accounted n w'"
proof (cases "cclosed (messages (st w))")
  case True
  with assms(3) have w': "w' = w\<lparr>st := (st w)\<lparr>locked := True, shuttingDown := True\<rparr>,
               halted := Some CloseOfClosedChannel\<rparr>"
    by (auto simp: step_drain_cases split: if_splits)
  have "guarded w'"
    using guardedD [OF assms(1)] True by (auto simp: guarded_def w')
  moreover have "accounted n w'"
    using accountedD [OF assms(2)] by (simp add: accounted_def owned_def w')
  ultimately show ?thesis by simp
next
  case False
  with assms(3) have w': "w' = w\<lparr>st := (st w)\<lparr>shuttingDown := True,
                 messages := (messages (st w))\<lparr>cclosed := True\<rparr>\<rparr>, drain := Waiting\<rparr>"
    and r: "readers (st w) = 0"
    by (auto simp: step_drain_cases split: if_splits)
  have "guarded w'"
    using guardedD [OF assms(1)] False r by (auto simp: guarded_def w')
  moreover have "accounted n w'"
    using accountedD [OF assms(2)] by (simp add: accounted_def owned_def w')
  ultimately show ?thesis by simp
qed

lemma step_drain_returns_cases:
  "step_drain_returns w =
     (if drain w = Waiting \<and> wg (st w) = 0 then Some (DrainReturned, w\<lparr>drain := Finished\<rparr>)
      else None)"
  by (simp add: step_drain_returns_def drainTheQueue_wait_def)

lemma step_drain_returns_inv:
  assumes "guarded w" "accounted n w" "step_drain_returns w = Some (ev, w')"
  shows "guarded w' \<and> accounted n w'"
proof -
  from assms(3) have w': "w' = w\<lparr>drain := Finished\<rparr>" and d: "drain w = Waiting" "wg (st w) = 0"
    by (auto simp: step_drain_returns_cases split: if_splits)
  have "guarded w'"
    using guardedD [OF assms(1)] d by (auto simp: guarded_def w' split: if_splits)
  moreover have "accounted n w'"
    using accountedD [OF assms(2)] by (simp add: accounted_def owned_def w')
  ultimately show ?thesis by simp
qed

lemma step_setup_inv:
  assumes "guarded w" "accounted n w"
    and "step_setup f ev0 w = Some (ev, w')"
    and "f = SetCustomSocket dialed \<or> f = SetLogName p opened"
  shows "guarded w' \<and> accounted n w'"
proof -
  obtain r s where fs: "f (st w) = (r, s)" by (cases "f (st w)")
  have "SetCustomSocket dialed (st w) = (r, s) \<or> SetLogName p opened (st w) = (r, s)"
    using fs assms(4) by auto
  note fr = setup_frame [OF this]
  from assms(3) fs fr have w': "w' = w\<lparr>st := s\<rparr>"
    by (auto simp: step_setup_def)
  have "guarded w'"
    using guardedD [OF assms(1)] fr by (auto simp: guarded_def w')
  moreover have "accounted n w'"
    using accountedD [OF assms(2)] fr by (simp add: accounted_def owned_def w')
  ultimately show ?thesis by simp
qed

lemma step_inv:
  assumes "guarded w" "accounted n w" "step grow a w = Some (ev, w')"
  shows "guarded w' \<and> accounted n w'"
proof -
  note h = step_halted [OF assms(3)]
  show ?thesis
  proof (cases a)
    case (CallQueueMsgDirect e)
    with assms(3) h have "step_call e w = Some (ev, w')" by (simp add: step_def)
    then show ?thesis by (rule step_call_inv [OF assms(1,2) h])
  next
    case (Resume i)
    with assms(3) h have "step_resume grow i w = Some (ev, w')" by (simp add: step_def)
    then show ?thesis by (rule step_resume_inv [OF assms(1,2) h])
  next
    case (WriterStep sunk)
    with assms(3) h have "step_writer sunk w = Some (ev, w')" by (simp add: step_def)
    then show ?thesis by (rule step_writer_inv [OF assms(1,2)])
  next
    case CallDrainTheQueue
    with assms(3) h have "step_drain w = Some (ev, w')" by (simp add: step_def)
    then show ?thesis by (rule step_drain_inv [OF assms(1,2)])
  next
    case DrainReturns
    with assms(3) h have "step_drain_returns w = Some (ev, w')" by (simp add: step_def)
    then show ?thesis by (rule step_drain_returns_inv [OF assms(1,2)])
  next
    case (CallSetCustomSocket dialed)
    with assms(3) h have "step_setup (SetCustomSocket dialed) SocketSet w = Some (ev, w')"
      by (simp add: step_def)
    then show ?thesis by (rule step_setup_inv [OF assms(1,2) _ disjI1 [OF refl]])
  next
    case (CallSetLogName p opened)
    with assms(3) h have "step_setup (SetLogName p opened) NameSet w = Some (ev, w')"
      by (simp add: step_def)
    then show ?thesis by (rule step_setup_inv [OF assms(1,2) _ disjI2 [OF refl]])
  qed
qed

lemma step_elim [consumes 3, case_names Rejected Dropped Acquired Queued Dequeued WriterExit
    Wrote WriteFault Recycled DrainClosed DrainFault DrainReturned SocketSet NameSet]:
  assumes "step grow a w = Some (ev, w')" and "guarded w" and "accounted n w"
  obtains
    e where "a = CallQueueMsgDirect e" "shuttingDown (st w)" "ev = Rejected" "w' = w"
  | e where "a = CallQueueMsgDirect e" "\<not> shuttingDown (st w)" "cbuf (freeMessages (st w)) = []"
      "ev = Dropped"
      "w' = w\<lparr>st := (st w)\<lparr>logCount := logCount (st w) + 1, dropCount := dropCount (st w) + 1\<rparr>\<rparr>"
  | e p rest where "a = CallQueueMsgDirect e" "\<not> shuttingDown (st w)"
      "cbuf (freeMessages (st w)) = p # rest" "ev = Acquired p"
      "w' = w\<lparr>st := (st w)\<lparr>readers := readers (st w) + 1, logCount := logCount (st w) + 1,
                              freeMessages := (freeMessages (st w))\<lparr>cbuf := rest\<rparr>\<rparr>,
               producers := producers w @ [(p, e)]\<rparr>"
  | i msg e where "a = Resume i" "i < length (producers w)" "producers w ! i = (msg, e)"
      "\<not> shuttingDown (st w)" "msg < n"
      "ev = Queued msg (render grow e (msgArr (st w) ! msg))"
      "w' = w\<lparr>producers := take i (producers w) @ drop (Suc i) (producers w),
               st := (st w)\<lparr>msgArr := (msgArr (st w))[msg := render grow e (msgArr (st w) ! msg)],
                              messages := (messages (st w))\<lparr>cbuf := cbuf (messages (st w)) @ [msg]\<rparr>,
                              readers := readers (st w) - 1\<rparr>\<rparr>"
  | sunk msg rest where "a = WriterStep sunk" "writer w = Receiving"
      "cbuf (messages (st w)) = msg # rest" "ev = Dequeued msg"
      "w' = w\<lparr>st := (st w)\<lparr>messages := (messages (st w))\<lparr>cbuf := rest\<rparr>\<rparr>, writer := Writing msg\<rparr>"
  | sunk where "a = WriterStep sunk" "writer w = Receiving" "cbuf (messages (st w)) = []"
      "cclosed (messages (st w))" "ev = WriterExit"
      "w' = w\<lparr>st := logWriter_exit (st w), writer := Exited\<rparr>"
  | sunk msg r s where "a = WriterStep sunk" "writer w = Writing msg"
      "logWriter_write sunk msg (st w) = (Returned r, s)" "ev = Wrote msg (msgArr (st w) ! msg)"
      "w' = w\<lparr>st := s, writer := Recycling msg\<rparr>"
  | sunk msg f s where "a = WriterStep sunk" "writer w = Writing msg"
      "logWriter_write sunk msg (st w) = (Panicked f, s)" "ev = Fault f"
      "w' = w\<lparr>st := s, halted := Some f\<rparr>"
  | sunk msg where "a = WriterStep sunk" "writer w = Recycling msg" "ev = Recycled msg"
      "w' = w\<lparr>st := (st w)\<lparr>msgArr := (msgArr (st w))[msg := recycle (msgArr (st w) ! msg)],
                        freeMessages := (freeMessages (st w))\<lparr>cbuf := cbuf (freeMessages (st w)) @ [msg]\<rparr>\<rparr>,
               writer := Receiving\<rparr>"
  | "a = CallDrainTheQueue" "\<not> cclosed (messages (st w))" "readers (st w) = 0" "ev = DrainClosed"
      "w' = w\<lparr>st := (st w)\<lparr>shuttingDown := True, messages := (messages (st w))\<lparr>cclosed := True\<rparr>\<rparr>,
               drain := Waiting\<rparr>"
  | "a = CallDrainTheQueue" "cclosed (messages (st w))" "readers (st w) = 0"
      "ev = Fault CloseOfClosedChannel"
      "w' = w\<lparr>st := (st w)\<lparr>locked := True, shuttingDown := True\<rparr>,
               halted := Some CloseOfClosedChannel\<rparr>"
  | "a = DrainReturns" "drain w = Waiting" "wg (st w) = 0" "ev = DrainReturned"
      "w' = w\<lparr>drain := Finished\<rparr>"
  | dialed r s where "a = CallSetCustomSocket dialed" "SetCustomSocket dialed (st w) = (Returned r, s)"
      "ev = SocketSet" "w' = w\<lparr>st := s\<rparr>"
  | p opened r s where "a = CallSetLogName p opened" "SetLogName p opened (st w) = (Returned r, s)"
      "ev = NameSet" "w' = w\<lparr>st := s\<rparr>"
proof -
  note h = step_halted [OF assms(1)]
  show thesis
  proof (cases a)
    case (CallQueueMsgDirect e)
    with assms(1) h have "step_call e w = Some (ev, w')" by (simp add: step_def)
    then show thesis
      unfolding step_call_cases [OF assms(2,3) h]
      using CallQueueMsgDirect that(1-3) [of e]
      by (auto split: if_splits list.splits)
  next
    case (Resume i)
    with assms(1) h have s: "step_resume grow i w = Some (ev, w')" by (simp add: step_def)
    then have i: "i < length (producers w)"
      by (auto simp: step_resume_def split: if_splits)
    have sd: "\<not> shuttingDown (st w)"
      using guardedD(4) [OF assms(2)] i by auto
    obtain msg e where me: "producers w ! i = (msg, e)" by (cases "producers w ! i")
    have "msg < n" using producer_owned [OF assms(3) i] me by simp
    then show thesis
      using s [unfolded step_resume_cases [OF assms(2,3) h i]] me i sd Resume that(4) [of i msg e]
      by auto
  next
    case (WriterStep sunk)
    with assms(1) h have s: "step_writer sunk w = Some (ev, w')" by (simp add: step_def)
    show thesis
    proof (cases "writer w")
      case Receiving
      show thesis
        using s [unfolded step_writer_receiving [OF Receiving]] WriterStep Receiving
          that(5) [of sunk] that(6) [of sunk]
        by (auto split: list.splits if_splits)
    next
      case (Writing msg)
      obtain r s1 where ws: "logWriter_write sunk msg (st w) = (r, s1)"
        by (cases "logWriter_write sunk msg (st w)")
      show thesis
        using s ws Writing WriterStep that(7) [of sunk msg _ s1] that(8) [of sunk msg _ s1]
        by (cases r) (auto simp: step_writer_def panic_def)
    next
      case (Recycling msg)
      show thesis
        using s [unfolded step_writer_recycling [OF assms(3) Recycling]] WriterStep Recycling
          that(9) [of sunk msg]
        by auto
    next
      case Exited
      then show thesis using s by (simp add: step_writer_def)
    qed
  next
    case CallDrainTheQueue
    with assms(1) h have "step_drain w = Some (ev, w')" by (simp add: step_def)
    then show thesis
      using CallDrainTheQueue that(10,11)
      by (auto simp: step_drain_cases split: if_splits)
  next
    case DrainReturns
    with assms(1) h have "step_drain_returns w = Some (ev, w')" by (simp add: step_def)
    then show thesis
      using DrainReturns that(12)
      by (auto simp: step_drain_returns_cases split: if_splits)
  next
    case (CallSetCustomSocket dialed)
    with assms(1) h have s: "step_setup (SetCustomSocket dialed) SocketSet w = Some (ev, w')"
      by (simp add: step_def)
    obtain r s1 where fs: "SetCustomSocket dialed (st w) = (r, s1)"
      by (cases "SetCustomSocket dialed (st w)")
    from setup_frame [OF disjI1 [OF fs]] obtain e where "r = Returned e" by auto
    then show thesis
      using s fs CallSetCustomSocket that(13) [of dialed e s1]
      by (auto simp: step_setup_def)
  next
    case (CallSetLogName p opened)
    with assms(1) h have s: "step_setup (SetLogName p opened) NameSet w = Some (ev, w')"
      by (simp add: step_def)
    obtain r s1 where fs: "SetLogName p opened (st w) = (r, s1)"
      by (cases "SetLogName p opened (st w)")
    from setup_frame [OF disjI2 [OF fs]] obtain e where "r = Returned e" by auto
    then show thesis
      using s fs CallSetLogName that(14) [of p opened e s1]
      by (auto simp: step_setup_def)
  qed
qed

lemma tidy_step:
  assumes "step grow a w = Some (ev, w')" and "guarded w" and "accounted n w" and "tidy w"
  shows "tidy w'"
  using assms(1-3)
proof (cases rule: step_elim)
  case (Rejected e)
  then show ?thesis using assms(4) by simp
next
  case (Dropped e)
  then show ?thesis using assms(4) by (simp add: tidy_def)
next
  case (Acquired e p rest)
  then show ?thesis using assms(4) by (auto simp: tidy_def)
next
  case (Queued i msg e)
  note d = accounted_distinct [OF assms(3)]
  let ?P = "map fst (producers w)"
  have mi: "?P ! i = msg" using Queued(2,3) by simp
  have len: "msg < length (msgArr (st w))"
    using Queued(5) accountedD(4) [OF assms(3)] by simp
  have "distinct ?P" using d by (simp add: owned_def)
  from distinct_nth_notin_rest [OF this, of i] Queued(2) mi
  have n1: "msg \<notin> set (map fst (take i (producers w) @ drop (Suc i) (producers w)))"
    by (simp add: take_map drop_map)
  have "msg \<in> set ?P" using Queued(2) mi by (metis length_map nth_mem)
  then have n2: "msg \<notin> set (cbuf (freeMessages (st w)))"
    and n3: "msg \<notin> set (cbuf (messages (st w)))"
    and n4: "msg \<notin> set (held (writer w))"
    using d by (auto simp: owned_def)
  have n5: "msg \<notin> set (in_hand (writer w))"
    using n4 by (cases "writer w") auto
  have sub: "set (take i (producers w) @ drop (Suc i) (producers w)) \<subseteq> set (producers w)"
    by (auto dest: in_set_takeD in_set_dropD)
  show ?thesis
    unfolding tidy_def
  proof (intro conjI ballI)
    fix p assume p: "p \<in> set (cbuf (freeMessages (st w')) @ map fst (producers w'))"
    then have "p \<noteq> msg" using n1 n2 Queued(7) by auto
    moreover have "p \<in> set (cbuf (freeMessages (st w)) @ map fst (producers w))"
      using p sub Queued(7) by auto
    ultimately show "bytes (msgArr (st w') ! p) = []"
      using assms(4) Queued(7) by (simp add: tidy_def)
  next
    fix p assume p: "p \<in> set (in_hand (writer w') @ cbuf (messages (st w')))"
    show "CHR 0x00 \<in> set (bytes (msgArr (st w') ! p))"
    proof (cases "p = msg")
      case True
      then show ?thesis using len Queued(7) by (simp add: nul_render)
    next
      case False
      then have "p \<in> set (in_hand (writer w) @ cbuf (messages (st w)))"
        using p Queued(7) by auto
      then show ?thesis using False assms(4) Queued(7) by (simp add: tidy_def)
    qed
  qed
next
  case (Dequeued sunk msg rest)
  then show ?thesis using assms(4) by (auto simp: tidy_def)
next
  case (WriterExit sunk)
  then show ?thesis using assms(4) by (simp add: tidy_def logWriter_exit_frame)
next
  case (Wrote sunk msg r s)
  then show ?thesis using assms(4) logWriter_write_frame [OF Wrote(3)] by (simp add: tidy_def)
next
  case (WriteFault sunk msg f s)
  then show ?thesis using assms(4) logWriter_write_frame [OF WriteFault(3)] by (simp add: tidy_def)
next
  case (Recycled sunk msg)
  note d = accounted_distinct [OF assms(3)]
  have n3: "msg \<notin> set (cbuf (messages (st w)))"
    using d Recycled(2) by (auto simp: owned_def)
  have "msg \<in> set (owned w)" using Recycled(2) by (simp add: owned_def)
  then have len: "msg < length (msgArr (st w))"
    using accounted_set [OF assms(3)] accountedD(4) [OF assms(3)] by simp
  show ?thesis
    unfolding tidy_def
  proof (intro conjI ballI)
    fix p assume p: "p \<in> set (cbuf (freeMessages (st w')) @ map fst (producers w'))"
    show "bytes (msgArr (st w') ! p) = []"
    proof (cases "p = msg")
      case True
      then show ?thesis using len Recycled(4) by (simp add: bytes_recycle)
    next
      case False
      then have "p \<in> set (cbuf (freeMessages (st w)) @ map fst (producers w))"
        using p Recycled(4) by auto
      then show ?thesis using False assms(4) Recycled(4) by (simp add: tidy_def)
    qed
  next
    fix p assume p: "p \<in> set (in_hand (writer w') @ cbuf (messages (st w')))"
    then have "p \<noteq> msg" "p \<in> set (in_hand (writer w) @ cbuf (messages (st w)))"
      using n3 Recycled(2,4) by auto
    then show "CHR 0x00 \<in> set (bytes (msgArr (st w') ! p))"
      using assms(4) Recycled(4) by (simp add: tidy_def)
  qed
next
  case DrainClosed
  then show ?thesis using assms(4) by (simp add: tidy_def)
next
  case DrainFault
  then show ?thesis using assms(4) by (simp add: tidy_def)
next
  case DrainReturned
  then show ?thesis using assms(4) by (simp add: tidy_def)
next
  case (SocketSet dialed r s)
  then show ?thesis using assms(4) setup_frame [OF disjI1 [OF SocketSet(2)]] by (simp add: tidy_def)
next
  case (NameSet p opened r s)
  then show ?thesis using assms(4) setup_frame [OF disjI2 [OF NameSet(2)]] by (simp add: tidy_def)
qed

lemma pending_frame:
  assumes "msgArr (st w') = msgArr (st w)" "messages (st w') = messages (st w)"
    "in_hand (writer w') = in_hand (writer w)"
  shows "pending w' = pending w"
  using assms by (simp add: pending_def)

lemma traced_step:
  assumes "step grow a w = Some (ev, w')" and "guarded w" and "accounted n w" and "tidy w"
    and "traced evs w"
  shows "traced (evs @ [ev]) w'"
proof -
  note t = tracedD [OF assms(5)]
  note g = guardedD [OF assms(2)]
  note h = step_halted [OF assms(1)]
  have nf: "Fault f \<notin> set evs" for f using t(4) h by simp
  from assms(1-3) show ?thesis
  proof (cases rule: step_elim)
    case (Rejected e)
    then show ?thesis using assms(5) t
      by (auto simp: traced_def queued_snoc wrote_snoc since_exit_snoc)
  next
    case (Dropped e)
    have "pending w' = pending w" using Dropped by (simp add: pending_def)
    then show ?thesis using Dropped t g
      by (auto simp: traced_def queued_snoc wrote_snoc since_exit_snoc sock_closed_def)
  next
    case (Acquired e p rest)
    have "pending w' = pending w" using Acquired by (simp add: pending_def)
    then show ?thesis using Acquired t g
      by (auto simp: traced_def queued_snoc wrote_snoc since_exit_snoc sock_closed_def)
  next
    case (Queued i msg e)
    note d = accounted_distinct [OF assms(3)]
    have mi: "map fst (producers w) ! i = msg" using Queued(2,3) by simp
    have len: "msg < length (msgArr (st w))"
      using Queued(5) accountedD(4) [OF assms(3)] by simp
    have "msg \<in> set (map fst (producers w))" using Queued(2) mi by (metis length_map nth_mem)
    then have n3: "msg \<notin> set (cbuf (messages (st w)))"
      and n4: "msg \<notin> set (held (writer w))"
      using d by (auto simp: owned_def)
    have n5: "msg \<notin> set (in_hand (writer w))"
      using n4 by (cases "writer w") auto
    have "pending w' = pending w @ [(msg, render grow e (msgArr (st w) ! msg))]"
      using Queued(7) len n3 n5 by (simp add: pending_def map_nth_update_notin)
    moreover have "writer w \<noteq> Exited"
      using g(7) g(3) Queued(4) by auto
    ultimately show ?thesis using Queued t g
      by (auto simp: traced_def queued_snoc wrote_snoc since_exit_snoc)
  next
    case (Dequeued sunk msg rest)
    have "pending w' = pending w" using Dequeued by (simp add: pending_def)
    then show ?thesis using Dequeued t g
      by (auto simp: traced_def queued_snoc wrote_snoc since_exit_snoc)
  next
    case (WriterExit sunk)
    have "pending w' = pending w" using WriterExit by (simp add: pending_def logWriter_exit_frame)
    then show ?thesis using WriterExit t g
      by (auto simp: traced_def queued_snoc wrote_snoc since_exit_snoc sock_closed_exit)
  next
    case (Wrote sunk msg r s)
    note fr = logWriter_write_frame [OF Wrote(3)]
    have "pending w = (msg, msgArr (st w) ! msg) # pending w'"
      using Wrote fr by (simp add: pending_def)
    then show ?thesis using Wrote t g
      by (auto simp: traced_def queued_snoc wrote_snoc since_exit_snoc)
  next
    case (WriteFault sunk msg f s)
    have "CHR 0x00 \<in> set (bytes (msgArr (st w) ! msg))"
      using assms(4) WriteFault(2) by (simp add: tidy_def)
    from logWriter_write_no_fault [OF this] WriteFault(3) show ?thesis by blast
  next
    case (Recycled sunk msg)
    note d = accounted_distinct [OF assms(3)]
    have n3: "msg \<notin> set (cbuf (messages (st w)))"
      using d Recycled(2) by (auto simp: owned_def)
    have "pending w' = pending w" using Recycled n3 by (simp add: pending_def map_nth_update_notin)
    then show ?thesis using Recycled t g
      by (auto simp: traced_def queued_snoc wrote_snoc since_exit_snoc)
  next
    case DrainClosed
    have "pending w' = pending w" using DrainClosed by (simp add: pending_def)
    moreover have "writer w \<noteq> Exited" "drain w = NotCalled"
      using g DrainClosed(2) by auto
    ultimately show ?thesis using DrainClosed t
      by (auto simp: traced_def queued_snoc wrote_snoc since_exit_snoc)
  next
    case DrainFault
    have "pending w' = pending w" using DrainFault by (simp add: pending_def)
    then show ?thesis using DrainFault t nf
      by (auto simp: traced_def queued_snoc wrote_snoc since_exit_snoc sock_closed_def)
  next
    case DrainReturned
    have "pending w' = pending w" using DrainReturned by (simp add: pending_def)
    then show ?thesis using DrainReturned t g
      by (auto simp: traced_def queued_snoc wrote_snoc since_exit_snoc sock_closed_def)
  next
    case (SocketSet dialed r s)
    note fr = setup_frame [OF disjI1 [OF SocketSet(2)]]
    have "pending w' = pending w" using SocketSet fr by (simp add: pending_def)
    then show ?thesis using SocketSet t
      by (auto simp: traced_def queued_snoc wrote_snoc since_exit_snoc)
  next
    case (NameSet p opened r s)
    note fr = setup_frame [OF disjI2 [OF NameSet(2)]]
    have "pending w' = pending w" using NameSet fr by (simp add: pending_def)
    then show ?thesis using NameSet t SetLogName_sock [OF NameSet(2)]
      by (auto simp: traced_def queued_snoc wrote_snoc since_exit_snoc sock_closed_def)
  qed
qed

lemma exec_snoc:
  "exec grow (acts @ [a]) w =
     (case exec grow acts w of
        None \<Rightarrow> None
      | Some (evs, w1) \<Rightarrow>
          (case step grow a w1 of
             None \<Rightarrow> None
           | Some (ev, w2) \<Rightarrow> Some (evs @ [ev], w2)))"
  by (induction acts arbitrary: w) (auto split: option.splits)

lemma exec_append:
  "exec grow (xs @ ys) w =
     (case exec grow xs w of
        None \<Rightarrow> None
      | Some (evs1, w1) \<Rightarrow>
          (case exec grow ys w1 of
             None \<Rightarrow> None
           | Some (evs2, w2) \<Rightarrow> Some (evs1 @ evs2, w2)))"
  by (induction xs arbitrary: w) (auto split: option.splits)

lemma exec_invs:
  "exec grow acts (boot n) = Some (evs, w) \<Longrightarrow>
     guarded w \<and> accounted n w \<and> tidy w \<and> traced evs w"
proof (induction acts arbitrary: evs w rule: rev_induct)
  case Nil
  then show ?case by (auto simp: guarded_boot accounted_boot tidy_boot traced_boot)
next
  case (snoc a acts)
  from snoc.prems obtain evs1 w1 ev
    where e1: "exec grow acts (boot n) = Some (evs1, w1)"
      and s1: "step grow a w1 = Some (ev, w)"
      and ev: "evs = evs1 @ [ev]"
    by (auto simp: exec_snoc split: option.splits)
  note i = snoc.IH [OF e1]
  from i have g: "guarded w1" and a: "accounted n w1" and t: "tidy w1" and r: "traced evs1 w1"
    by simp_all
  show ?case
    using step_inv [OF g a s1] tidy_step [OF s1 g a t] traced_step [OF s1 g a t r] ev
    by simp
qed

lemma deliveredD:
  assumes "delivered evs w"
  shows "SocketSet \<notin> set evs \<Longrightarrow> customSock (st w) = None"
    and "SocketSet \<notin> set evs \<Longrightarrow> syslog_calls (st w) = map (syslog_entry \<circ> snd) (wrote evs)"
    and "customSock (st w) = None \<Longrightarrow>
           \<exists>older. syslog_calls (st w) =
                      older @ map (syslog_entry \<circ> snd) (wrote (since_socket evs))"
    and "customSock (st w) = Some c \<Longrightarrow>
           writes c = map (framed \<circ> snd) (wrote (since_socket evs))"
  using assms by (auto simp: delivered_def)

lemma delivered_boot: "delivered [] (boot n)"
  by (simp add: delivered_def boot_eq vars_def wrote_def since_socket_def)

lemma delivered_frame:
  assumes "delivered evs w" and "customSock (st w') = customSock (st w)"
    and "syslog_calls (st w') = syslog_calls (st w)"
    and "wrote_of ev = []" and "ev \<noteq> SocketSet"
  shows "delivered (evs @ [ev]) w'"
  using assms by (simp add: delivered_def wrote_snoc since_socket_snoc)

lemma delivered_step:
  assumes "step grow a w = Some (ev, w')" and "guarded w" and "accounted n w" and "tidy w"
    and "delivered evs w"
  shows "delivered (evs @ [ev]) w'"
  using assms(1-3)
proof (cases rule: step_elim)
  case (WriterExit sunk)
  note k = logWriter_exit_sink [of "st w"]
  show ?thesis
  proof (cases "customSock (st w)")
    case None
    with k have "customSock (st w') = customSock (st w)" "syslog_calls (st w') = syslog_calls (st w)"
      using WriterExit by simp_all
    then show ?thesis by (rule delivered_frame [OF assms(5)]) (simp_all add: WriterExit)
  next
    case (Some c)
    with k have c: "customSock (st w') = Some (c\<lparr>conn_closed := True\<rparr>)"
      and s: "syslog_calls (st w') = syslog_calls (st w)"
      using WriterExit by simp_all
    have e: "wrote (evs @ [ev]) = wrote evs" "since_socket (evs @ [ev]) = since_socket evs @ [ev]"
      "SocketSet \<in> set (evs @ [ev]) \<longleftrightarrow> SocketSet \<in> set evs"
      using WriterExit(5) by (simp_all add: wrote_snoc since_socket_snoc)
    show ?thesis using assms(5) Some
      unfolding delivered_def e c s by (simp add: wrote_snoc WriterExit(5))
  qed
next
  case (Wrote sunk msg r s)
  note k = logWriter_write_sink [OF Wrote(3)]
  have st: "st w' = s" using Wrote(5) by simp
  have e: "wrote (evs @ [ev]) = wrote evs @ [(msg, msgArr (st w) ! msg)]"
    "wrote (since_socket (evs @ [ev])) = wrote (since_socket evs) @ [(msg, msgArr (st w) ! msg)]"
    "SocketSet \<in> set (evs @ [ev]) \<longleftrightarrow> SocketSet \<in> set evs"
    using Wrote(4) by (simp_all add: wrote_snoc since_socket_snoc)
  show ?thesis
  proof (cases "customSock (st w)")
    case None
    with k have c: "customSock s = None"
      and l: "syslog_calls s = syslog_calls (st w) @ [syslog_entry (msgArr (st w) ! msg)]"
      by simp_all
    show ?thesis using assms(5) None
      unfolding delivered_def e st c l by auto
  next
    case (Some c)
    with k have c: "customSock s = Some (c\<lparr>writes := writes c @ [framed (msgArr (st w) ! msg)]\<rparr>)"
      and l: "syslog_calls s = syslog_calls (st w)"
      by simp_all
    show ?thesis using assms(5) Some
      unfolding delivered_def e st c l by auto
  qed
next
  case (WriteFault sunk msg f s)
  have "CHR 0x00 \<in> set (bytes (msgArr (st w) ! msg))"
    using assms(4) WriteFault(2) by (simp add: tidy_def)
  from logWriter_write_no_fault [OF this] WriteFault(3) show ?thesis by blast
next
  case (SocketSet dialed r s)
  note k = SetCustomSocket_sink [OF SocketSet(2)]
  then show ?thesis using SocketSet
    by (auto simp: delivered_def since_socket_snoc wrote_def)
next
  case (NameSet p opened r s)
  note k = SetLogName_sink [OF NameSet(2)]
  show ?thesis by (rule delivered_frame [OF assms(5)]) (simp_all add: NameSet k)
qed (rule delivered_frame [OF assms(5)]; simp)+

lemma exec_delivered:
  "exec grow acts (boot n) = Some (evs, w) \<Longrightarrow> delivered evs w"
proof (induction acts arbitrary: evs w rule: rev_induct)
  case Nil
  then show ?case by (auto simp: delivered_boot)
next
  case (snoc a acts)
  from snoc.prems obtain evs1 w1 ev
    where e1: "exec grow acts (boot n) = Some (evs1, w1)"
      and s1: "step grow a w1 = Some (ev, w)"
      and ev: "evs = evs1 @ [ev]"
    by (auto simp: exec_snoc split: option.splits)
  from exec_invs [OF e1] have g: "guarded w1" and a: "accounted n w1" and t: "tidy w1"
    by simp_all
  show ?case
    using delivered_step [OF s1 g a t snoc.IH [OF e1]] ev by simp
qed

lemma step_after_shutdown:
  assumes "step grow a w = Some (ev, w')" and "guarded w" and "accounted n w"
    and "shuttingDown (st w)"
  shows "shuttingDown (st w') \<and>
         length (cbuf (messages (st w'))) \<le> length (cbuf (messages (st w))) \<and>
         queued_of ev = []"
  using assms(1-3)
proof (cases rule: step_elim)
  case (Wrote sunk msg r s)
  then show ?thesis using assms(4) logWriter_write_frame [OF Wrote(3)] by simp
next
  case (WriteFault sunk msg f s)
  then show ?thesis using assms(4) logWriter_write_frame [OF WriteFault(3)] by simp
next
  case (SocketSet dialed r s)
  then show ?thesis using assms(4) setup_frame [OF disjI1 [OF SocketSet(2)]] by simp
next
  case (NameSet p opened r s)
  then show ?thesis using assms(4) setup_frame [OF disjI2 [OF NameSet(2)]] by simp
qed (use assms(4) in \<open>simp_all add: logWriter_exit_frame\<close>)

lemma exec_after_shutdown:
  assumes "guarded w \<and> accounted n w" and "shuttingDown (st w)"
    and "exec grow later w = Some (evs2, w2)"
  shows "guarded w2 \<and> accounted n w2 \<and> shuttingDown (st w2) \<and>
         length (cbuf (messages (st w2))) \<le> length (cbuf (messages (st w))) \<and>
         queued evs2 = []"
  using assms(3)
proof (induction later arbitrary: evs2 w2 rule: rev_induct)
  case Nil
  then show ?case using assms(1,2) by (auto simp: queued_def)
next
  case (snoc a later)
  from snoc.prems obtain evs1 w1 ev
    where e1: "exec grow later w = Some (evs1, w1)"
      and s1: "step grow a w1 = Some (ev, w2)"
      and ev: "evs2 = evs1 @ [ev]"
    by (auto simp: exec_snoc split: option.splits)
  note i = snoc.IH [OF e1]
  from i have g: "guarded w1" and a: "accounted n w1" and sd: "shuttingDown (st w1)" by simp_all
  from step_after_shutdown [OF s1 g a sd] step_inv [OF g a s1] i ev
  show ?case by (simp add: queued_snoc)
qed

lemma step_halts:
  assumes "step grow a w = Some (ev, w')" and "guarded w" and "accounted n w" and "tidy w"
  shows "halted w' = None \<or>
         ev = Fault CloseOfClosedChannel \<and> halted w' = Some CloseOfClosedChannel \<and>
           shuttingDown (st w')"
  using assms(1-3)
proof (cases rule: step_elim)
  case (WriteFault sunk msg f s)
  have "CHR 0x00 \<in> set (bytes (msgArr (st w) ! msg))"
    using assms(4) WriteFault(2) by (simp add: tidy_def)
  from logWriter_write_no_fault [OF this] WriteFault(3) show ?thesis by blast
qed (use step_halted [OF assms(1)] in simp_all)

lemma exec_halted:
  assumes "exec grow acts (boot n) = Some (evs, w)" and "halted w = Some f"
  shows "f = CloseOfClosedChannel \<and> Fault f \<in> set evs \<and> shuttingDown (st w)"
  using assms
proof (induction acts arbitrary: evs w rule: rev_induct)
  case Nil
  then show ?case by (auto simp: boot_eq)
next
  case (snoc a acts)
  from snoc.prems(1) obtain evs1 w1 ev
    where e1: "exec grow acts (boot n) = Some (evs1, w1)"
      and s1: "step grow a w1 = Some (ev, w)"
      and ev: "evs = evs1 @ [ev]"
    by (auto simp: exec_snoc split: option.splits)
  from exec_invs [OF e1] have g: "guarded w1" and a: "accounted n w1" and t: "tidy w1"
    by simp_all
  from step_halts [OF s1 g a t] snoc.prems(2) ev show ?case by auto
qed

lemma step_queued_level:
  assumes "step grow a w = Some (ev, w')" and "guarded w" and "accounted n w"
    and "(p, m) \<in> set (queued_of ev)"
  shows "level m = LOG_DEBUG"
  using assms(1-3)
proof (cases rule: step_elim)
  case (Queued i msg e)
  then show ?thesis using assms(4) by (simp add: render_level)
qed (use assms(4) in simp_all)

lemma step_dropCount:
  assumes "step grow a w = Some (ev, w')"
  shows "dropCount (st w') = dropCount (st w) + (if ev = Dropped then 1 else 0)"
proof -
  note h = step_halted [OF assms]
  show ?thesis
  proof (cases a)
    case (CallQueueMsgDirect e)
    with assms h have "step_call e w = Some (ev, w')" by (simp add: step_def)
    then show ?thesis
      by (auto simp: step_call_def acquire_eq panic_def split: if_splits list.splits)
  next
    case (Resume i)
    with assms h have s: "step_resume grow i w = Some (ev, w')" by (simp add: step_def)
    obtain r s1 where q: "queueMsgDirect_queue grow (snd (producers w ! i)) (fst (producers w ! i)) (st w) = (r, s1)"
      by (cases "queueMsgDirect_queue grow (snd (producers w ! i)) (fst (producers w ! i)) (st w)")
    then have d: "dropCount s1 = dropCount (st w)"
      using queue_counters [of grow "snd (producers w ! i)" "fst (producers w ! i)" "st w"] by simp
    show ?thesis
      using s q d
      by (auto simp: step_resume_def panic_def Let_def split: if_splits result.splits option.splits)
  next
    case (WriterStep sunk)
    with assms h have s: "step_writer sunk w = Some (ev, w')" by (simp add: step_def)
    show ?thesis
    proof (cases "writer w")
      case Receiving
      then show ?thesis
        using s by (auto simp: step_writer_receiving logWriter_exit_frame split: list.splits if_splits)
    next
      case (Writing msg)
      obtain r s1 where ws: "logWriter_write sunk msg (st w) = (r, s1)"
        by (cases "logWriter_write sunk msg (st w)")
      show ?thesis
        using s ws Writing logWriter_write_frame [OF ws]
        by (cases r) (auto simp: step_writer_def panic_def)
    next
      case (Recycling msg)
      obtain r s1 where f: "logWriter_recycle msg (st w) = (r, s1)"
        by (cases "logWriter_recycle msg (st w)")
      then have "dropCount s1 = dropCount (st w)"
        using freeMsg_counters [of msg "(st w)\<lparr>msgArr := (msgArr (st w))[msg := recycle (msgArr (st w) ! msg)]\<rparr>"]
        by (simp add: logWriter_recycle_def)
      then show ?thesis
        using s f Recycling
        by (cases r) (auto simp: step_writer_def panic_def)
    next
      case Exited
      then show ?thesis using s by (simp add: step_writer_def)
    qed
  next
    case CallDrainTheQueue
    with assms h have "step_drain w = Some (ev, w')" by (simp add: step_def)
    then show ?thesis
      by (auto simp: step_drain_cases split: if_splits)
  next
    case DrainReturns
    with assms h have "step_drain_returns w = Some (ev, w')" by (simp add: step_def)
    then show ?thesis
      by (auto simp: step_drain_returns_cases split: if_splits)
  next
    case (CallSetCustomSocket dialed)
    with assms h have s: "step_setup (SetCustomSocket dialed) SocketSet w = Some (ev, w')"
      by (simp add: step_def)
    obtain r s1 where fs: "SetCustomSocket dialed (st w) = (r, s1)"
      by (cases "SetCustomSocket dialed (st w)")
    from setup_frame [OF disjI1 [OF fs]] s fs show ?thesis
      by (auto simp: step_setup_def)
  next
    case (CallSetLogName p opened)
    with assms h have s: "step_setup (SetLogName p opened) NameSet w = Some (ev, w')"
      by (simp add: step_def)
    obtain r s1 where fs: "SetLogName p opened (st w) = (r, s1)"
      by (cases "SetLogName p opened (st w)")
    from setup_frame [OF disjI2 [OF fs]] s fs show ?thesis
      by (auto simp: step_setup_def)
  qed
qed

lemma acquire_all:
  assumes "halted w = None" "\<not> locked (st w)" "\<not> shuttingDown (st w)"
    and "length es \<le> length (cbuf (freeMessages (st w)))"
  shows "\<exists>w'. exec grow (map CallQueueMsgDirect es) w =
             Some (map Acquired (take (length es) (cbuf (freeMessages (st w)))), w') \<and>
           halted w' = None \<and> \<not> locked (st w') \<and> \<not> shuttingDown (st w') \<and>
           cbuf (freeMessages (st w')) = drop (length es) (cbuf (freeMessages (st w))) \<and>
           cclosed (freeMessages (st w')) = cclosed (freeMessages (st w)) \<and>
           dropCount (st w') = dropCount (st w) \<and>
           messages (st w') = messages (st w)"
  using assms
proof (induction es arbitrary: w)
  case Nil
  then show ?case by simp
next
  case (Cons e es)
  from Cons.prems(4) obtain p rest where f: "cbuf (freeMessages (st w)) = p # rest"
    by (cases "cbuf (freeMessages (st w))") auto
  let ?w1 = "w\<lparr>st := (st w)\<lparr>readers := readers (st w) + 1, logCount := logCount (st w) + 1,
                              freeMessages := (freeMessages (st w))\<lparr>cbuf := rest\<rparr>\<rparr>,
               producers := producers w @ [(p, e)]\<rparr>"
  have s: "step grow (CallQueueMsgDirect e) w = Some (Acquired p, ?w1)"
    using Cons.prems(1-3) f by (simp add: step_def step_call_def acquire_eq)
  have "length es \<le> length (cbuf (freeMessages (st ?w1)))"
    using Cons.prems(4) f by simp
  from Cons.IH [of ?w1, OF _ _ _ this] Cons.prems(1-3)
  obtain w' where w': "exec grow (map CallQueueMsgDirect es) ?w1 =
             Some (map Acquired (take (length es) rest), w')"
    "halted w' = None" "\<not> locked (st w')" "\<not> shuttingDown (st w')"
    "cbuf (freeMessages (st w')) = drop (length es) rest"
    "cclosed (freeMessages (st w')) = cclosed (freeMessages (st w))"
    "dropCount (st w') = dropCount (st w)"
    "messages (st w') = messages (st w)"
    by auto
  show ?case
    using s w' f by (intro exI [of _ w']) simp
qed

subsection \<open>The writer comes to its end\<close>

lemma writer_progress:
  assumes "guarded w" and "accounted n w" and "tidy w"
    and "shuttingDown (st w)" and "halted w = None" and "writer w \<noteq> Exited"
  shows "\<exists>ev w'. step grow (WriterStep sunk) w = Some (ev, w') \<and> halted w' = None \<and>
           Suc (writer_work w') = writer_work w \<and> shuttingDown (st w') \<and> drain w' = drain w"
proof (cases "writer w")
  case Receiving
  show ?thesis
  proof (cases "cbuf (messages (st w))")
    case Nil
    have "cclosed (messages (st w))" using guardedD(3) [OF assms(1)] assms(4) by simp
    then show ?thesis
      using Receiving Nil assms(4,5)
      by (simp add: step_def step_writer_receiving writer_work_def logWriter_exit_frame)
  next
    case (Cons msg rest)
    then show ?thesis
      using Receiving assms(4,5)
      by (simp add: step_def step_writer_receiving writer_work_def)
  qed
next
  case (Writing msg)
  obtain r s where ws: "logWriter_write sunk msg (st w) = (r, s)"
    by (cases "logWriter_write sunk msg (st w)")
  have nul: "CHR 0x00 \<in> set (bytes (msgArr (st w) ! msg))"
    using assms(3) Writing by (simp add: tidy_def)
  have "r \<noteq> Blocked" "\<And>f. r \<noteq> Panicked f"
    using ws logWriter_write_no_fault [OF nul, of sunk]
    by (auto simp: logWriter_write_def write_syslog_def writeCustomSocket_def Let_def
        split: if_splits option.splits)
  then obtain e where r: "r = Returned e" by (cases r) auto
  show ?thesis
    using Writing ws r assms(4,5) logWriter_write_frame [OF ws]
    by (simp add: step_def step_writer_def writer_work_def)
next
  case (Recycling msg)
  show ?thesis
    using Recycling assms(4,5)
    by (simp add: step_def step_writer_recycling [OF assms(2) Recycling] writer_work_def)
next
  case Exited
  then show ?thesis using assms(6) by simp
qed

lemma writer_runs_out:
  assumes "guarded w" and "accounted n w" and "tidy w"
    and "shuttingDown (st w)" and "halted w = None" and "length sunks = writer_work w"
  shows "\<exists>evs' w'. exec grow (map WriterStep sunks) w = Some (evs', w') \<and>
           writer w' = Exited \<and> halted w' = None \<and> drain w' = drain w \<and> guarded w'"
  using assms
proof (induction sunks arbitrary: w)
  case Nil
  then have "writer_left (writer w) = 0" by (simp add: writer_work_def)
  then have "writer w = Exited" by (cases "writer w") simp_all
  then show ?case using Nil.prems by simp
next
  case (Cons sunk sunks)
  have ne: "writer w \<noteq> Exited"
  proof
    assume e: "writer w = Exited"
    then have "cbuf (messages (st w)) = []" using guardedD(7) [OF Cons.prems(1)] by simp
    then have "writer_work w = 0" using e by (simp add: writer_work_def)
    then show False using Cons.prems(6) by simp
  qed
  from writer_progress [OF Cons.prems(1-5) ne, of grow sunk] obtain ev w1
    where s: "step grow (WriterStep sunk) w = Some (ev, w1)" and h: "halted w1 = None"
      and k: "Suc (writer_work w1) = writer_work w" and sd: "shuttingDown (st w1)"
      and d: "drain w1 = drain w"
    by blast
  have g1: "guarded w1" and a1: "accounted n w1"
    using step_inv [OF Cons.prems(1,2) s] by simp_all
  have t1: "tidy w1" by (rule tidy_step [OF s Cons.prems(1,2,3)])
  have l: "length sunks = writer_work w1" using k Cons.prems(6) by simp
  from Cons.IH [OF g1 a1 t1 sd h l] obtain evs' w'
    where "exec grow (map WriterStep sunks) w1 = Some (evs', w')" "writer w' = Exited"
      "halted w' = None" "drain w' = drain w1" "guarded w'"
    by blast
  then show ?case using s d by simp
qed

lemma step_writer_event:
  assumes "step grow (WriterStep sunk) w = Some (ev, w')"
  shows "ev \<noteq> SocketSet"
proof -
  from assms step_halted [OF assms] have s: "step_writer sunk w = Some (ev, w')"
    by (simp add: step_def)
  then show ?thesis
    by (auto simp: step_writer_def panic_def
        split: writer_pc.splits range_recv.splits prod.splits result.splits)
qed

lemma exec_writer_events:
  "exec grow (map WriterStep sunks) w = Some (evs, w') \<Longrightarrow> SocketSet \<notin> set evs"
proof (induction sunks arbitrary: w evs)
  case Nil
  then show ?case by simp
next
  case (Cons sunk sunks)
  from Cons.prems obtain ev w1 evs1
    where s: "step grow (WriterStep sunk) w = Some (ev, w1)"
      and e: "exec grow (map WriterStep sunks) w1 = Some (evs1, w')"
      and ev: "evs = ev # evs1"
    by (auto split: option.splits)
  from step_writer_event [OF s] Cons.IH [OF e] ev show ?case by simp
qed

text \<open>
  Once the flag is set, the writer alone, whatever its writes report, reaches its
  exit in \<open>writer_work\<close> steps, and then the wait in \<open>drainTheQueue\<close> returns.
\<close>

lemma shutdown_completes:
  assumes "exec grow acts (boot n) = Some (evs, w)"
    and "shuttingDown (st w)" and "halted w = None" and "length sunks = writer_work w"
  shows "\<exists>evs' w'. exec grow (map WriterStep sunks) w = Some (evs', w') \<and>
           writer w' = Exited \<and>
           (drain w = Waiting \<longrightarrow>
              step grow DrainReturns w' = Some (DrainReturned, w'\<lparr>drain := Finished\<rparr>))"
proof -
  from exec_invs [OF assms(1)]
  have g: "guarded w" and a: "accounted n w" and t: "tidy w" by simp_all
  from writer_runs_out [OF g a t assms(2-4), of grow] obtain evs' w'
    where r: "exec grow (map WriterStep sunks) w = Some (evs', w')" and e: "writer w' = Exited"
      and h: "halted w' = None" and d: "drain w' = drain w" and g': "guarded w'"
    by blast
  have "wg (st w') = 0" using guardedD(6) [OF g'] e by simp
  then have "drain w = Waiting \<longrightarrow>
              step grow DrainReturns w' = Some (DrainReturned, w'\<lparr>drain := Finished\<rparr>)"
    using h d by (simp add: step_def step_drain_returns_cases)
  with r e show ?thesis by blast
qed

subsection \<open>The schedules of the examples\<close>

lemmas run_defs =
  step_def step_call_def step_resume_def step_writer_def step_drain_def
  step_drain_returns_def step_setup_def panic_def
  queueMsgDirect_acquire_def queueMsgDirect_queue_def queueMsgDirect_def queueMsg_def
  freeMsg_def RLock_def RUnlock_def select_send_def select_recv_def range_recv_def
  render_def Write_def WriteByte_def Reset_def Cap_def recycle_def zeroMessage_def
  logWriter_write_def logWriter_recycle_def logWriter_exit_def write_syslog_def
  writeCustomSocket_def framed_def fmt_d_def digit_def
  drainTheQueue_close_def drainTheQueue_wait_def drainTheQueue_def close_chan_def
  SetCustomSocket_def SetLogName_def
  mapIndex_def levelSysLog_def levelMapFmt_def logMsg_def
  LOG_USER_def LOG_DEBUG_def LOG_INFO_def LOG_ERR_def LOG_WARNING_def
  MaxFreeMsgSize_def exact_fit_def Let_def

lemmas demo_defs = boot_eq upt_2 vars_def make_chan_def run_defs decimal.simps

lemma one_cycle_run:
  "\<exists>evs w. exec exact_fit one_cycle (boot 2) = Some (evs, w) \<and> halted w = None \<and>
     \<not> shuttingDown (st w) \<and> cbuf (freeMessages (st w)) = [1, 0] \<and>
     cbuf (messages (st w)) = [] \<and> producers w = [] \<and> writer w = Receiving"
  by (simp add: one_cycle_def demo_defs)

lemma shutdown_run_result:
  "\<exists>evs w. exec exact_fit shutdown_run (boot 2) = Some (evs, w) \<and> halted w = None \<and>
     shuttingDown (st w) \<and> drain w = Finished \<and> DrainReturned \<in> set evs \<and>
     SocketSet \<notin> set (since_exit evs) \<and>
     queued evs = [(1, \<lparr>bytes = ''y'' @ [CHR 0x00], bcap = 2, level = 7\<rparr>),
                   (0, \<lparr>bytes = ''x'' @ [CHR 0x00], bcap = 2, level = 7\<rparr>)]"
  by (simp add: shutdown_run_def demo_defs queued_def since_exit_def)

lemma shutdown_split_result:
  "\<exists>evs w evs2 w2. exec exact_fit (take 7 shutdown_run) (boot 2) = Some (evs, w) \<and>
     shuttingDown (st w) \<and> length (cbuf (messages (st w))) = 1 \<and>
     exec exact_fit (drop 7 shutdown_run) w = Some (evs2, w2) \<and> halted w2 = None \<and>
     cbuf (messages (st w2)) = []"
  by (simp add: shutdown_run_def demo_defs)

lemma syslog_run_result:
  "\<exists>evs w. exec exact_fit syslog_run (boot 2) = Some (evs, w) \<and>
     DrainReturned \<in> set evs \<and> SocketSet \<notin> set evs \<and>
     queued evs = [(1, \<lparr>bytes = ''y'' @ [CHR 0x00], bcap = 2, level = 7\<rparr>),
                   (0, \<lparr>bytes = ''x'' @ [CHR 0x00], bcap = 2, level = 7\<rparr>)]"
  by (simp add: syslog_run_def shutdown_run_def demo_defs queued_def)

lemma shutdown_run_socket:
  "\<exists>evs w c. exec exact_fit shutdown_run (boot 2) = Some (evs, w) \<and>
     DrainReturned \<in> set evs \<and> SocketSet \<notin> set (since_exit evs) \<and>
     customSock (st w) = Some c \<and> wrote (since_socket evs) = wrote evs \<and>
     queued evs = [(1, \<lparr>bytes = ''y'' @ [CHR 0x00], bcap = 2, level = 7\<rparr>),
                   (0, \<lparr>bytes = ''x'' @ [CHR 0x00], bcap = 2, level = 7\<rparr>)]"
  by (simp add: shutdown_run_def demo_defs queued_def wrote_def since_exit_def since_socket_def)

lemma shutdown_split_socket:
  "\<exists>evs w. exec exact_fit (take 7 shutdown_run) (boot 2) = Some (evs, w) \<and>
     shuttingDown (st w) \<and> halted w = None \<and> writer_work w = 6 \<and> drain w = Waiting \<and>
     wrote (since_socket evs) = wrote evs \<and>
     queued evs = [(1, \<lparr>bytes = ''y'' @ [CHR 0x00], bcap = 2, level = 7\<rparr>),
                   (0, \<lparr>bytes = ''x'' @ [CHR 0x00], bcap = 2, level = 7\<rparr>)]"
  by (simp add: shutdown_run_def demo_defs writer_work_def queued_def wrote_def since_socket_def)

lemma recycling_small:
  "\<exists>evs w. exec exact_fit (to_recycling ''x'') (boot 2) = Some (evs, w) \<and>
     writer w = Recycling 0 \<and> halted w = None \<and>
     msgArr (st w) ! 0 = \<lparr>bytes = ''x'' @ [CHR 0x00], bcap = 2, level = 7\<rparr>"
  by (simp add: to_recycling_def demo_defs)

lemma recycling_big:
  "\<exists>evs w. exec exact_fit (to_recycling big_entry) (boot 2) = Some (evs, w) \<and>
     writer w = Recycling 0 \<and> halted w = None \<and>
     bcap (msgArr (st w) ! 0) = 8193"
  by (simp add: to_recycling_def big_entry_def demo_defs)

section \<open>The claims\<close>

subsection \<open>The priority of a message\<close>

text \<open>
  C1. The claim is that a message logged at the severity Info is written with the
  priority of Info, so that the remote sink receives it behind \<open><14>\<close>. The code gives
  every message the priority of Debug, whatever its severity (\<open>render_level\<close>); run on
  the spec's scenario D it writes \<open><15>\<close> to the socket, and without the socket it calls
  \<open>csyslog\<close> with the priority 15, where the table entry of Info gives 14.
\<close>

theorem info_written_with_debug_priority:
  "map_option (map_option writes \<circ> customSock \<circ> st \<circ> snd)
     (exec grow ready_schedule (boot NumMessages)) =
   Some (Some [''<15>[Info]   ready'' @ [CHR 0x00]]) \<and>
   map_option (syslog_calls \<circ> st \<circ> snd)
     (exec grow (tl ready_schedule) (boot NumMessages)) =
   Some [(15, ''[Info]   ready'')] \<and>
   mapIndex levelSysLog Info 0 = LOG_INFO \<and>
   ''<'' @ fmt_d (sint (LOG_USER OR mapIndex levelSysLog Info 0)) @ ''>'' = ''<14>''"
  by (simp add: ready_schedule_def boot_eq upt_Cons NumMessages_def vars_def make_chan_def
      run_defs decimal.simps)

subsection \<open>The rendered line\<close>

text \<open>
  C2, as the claim states it, fails: the line queued for Error, \<open>"svc1"\<close> and
  \<open>"disk full"\<close> has two spaces after the tag, for the entry of \<open>levelMapFmt\<close> ends in a
  space and the format adds another.
\<close>

theorem error_line_counterexample:
  "fst disk_full_call = Returned None \<and>
   cbuf (messages (snd disk_full_call)) = [0] \<and>
   bytes (msgArr (snd disk_full_call) ! 0) = ''[Error]  svc1 disk full'' @ [CHR 0x00] \<and>
   bytes (msgArr (snd disk_full_call) ! 0) \<noteq> ''[Error] svc1 disk full'' @ [CHR 0x00]"
  unfolding disk_full_call_def init_vars
  by (simp add: upt_Cons NumMessages_def vars_def make_chan_def run_defs)

text \<open>
  C2, as amended. In every world the program reaches, a call of \<open>queueMsg\<close> that finds
  a free message and no shutdown queues that message, and the bytes of the queued
  message are the bracketed level tag, two spaces, the prefix, one space, the body and
  one NUL.
\<close>

theorem queued_line_format:
  assumes "exec grow acts (boot n) = Some (evs, w)"
    and "halted w = None" and "\<not> shuttingDown (st w)"
    and "cbuf (freeMessages (st w)) = msg # rest"
  shows "\<exists>s'. queueMsg grow lvl prefix body (st w) = (Returned None, s') \<and>
           cbuf (messages s') = cbuf (messages (st w)) @ [msg] \<and>
           bytes (msgArr s' ! msg) =
             bracketed lvl @ ''  '' @ prefix @ '' '' @ body @ [CHR 0x00]"
proof -
  from exec_invs [OF assms(1)]
  have g: "guarded w" and a: "accounted n w" and t: "tidy w" by simp_all
  have nl: "\<not> locked (st w)" using guardedD(2) [OF g] assms(2) by auto
  have op: "\<not> cclosed (messages (st w))" using guardedD(3) [OF g] assms(3) by simp
  have room: "length (cbuf (messages (st w))) < ccap (messages (st w))"
    using accounted_length [OF a] accountedD(3) [OF a] assms(4) by simp
  have "msg \<in> set (owned w)" using assms(4) by (simp add: owned_def)
  then have len: "msg < length (msgArr (st w))"
    using accounted_set [OF a] accountedD(4) [OF a] by simp
  have empty: "bytes (msgArr (st w) ! msg) = []"
    using t assms(4) by (simp add: tidy_def)
  from queueMsgDirect_queued [OF nl assms(3,4) op room, of grow "logMsg lvl prefix body"]
  obtain s' where s': "queueMsgDirect grow (logMsg lvl prefix body) (st w) = (Returned None, s')"
    "cbuf (messages s') = cbuf (messages (st w)) @ [msg]"
    "msgArr s' = (msgArr (st w))[msg := render grow (logMsg lvl prefix body) (msgArr (st w) ! msg)]"
    by blast
  have "bytes (msgArr s' ! msg) = bracketed lvl @ ''  '' @ prefix @ '' '' @ body @ [CHR 0x00]"
    using s'(3) len empty by (simp add: render_bytes logMsg_bracketed)
  then show ?thesis using s'(1,2) by (simp add: queueMsg_def)
qed

text \<open>
  The witness: after one message has gone through the whole cycle, the next call takes
  message 1 from the pool and queues the line for Error, \<open>"svc1"\<close> and \<open>"disk full"\<close>.
\<close>

theorem queued_line_format_witness:
  "\<exists>evs w s'. exec exact_fit one_cycle (boot 2) = Some (evs, w) \<and>
     queueMsg exact_fit Error ''svc1'' ''disk full'' (st w) = (Returned None, s') \<and>
     cbuf (messages s') = [1] \<and>
     bytes (msgArr s' ! 1) = ''[Error]  svc1 disk full'' @ [CHR 0x00]"
proof -
  from one_cycle_run obtain evs w
    where r: "exec exact_fit one_cycle (boot 2) = Some (evs, w)"
      and h: "halted w = None" "\<not> shuttingDown (st w)"
        "cbuf (freeMessages (st w)) = 1 # [0]"
      and q: "cbuf (messages (st w)) = []"
    by (elim exE conjE) simp
  from queued_line_format [OF r h, of Error "''svc1''" "''disk full''"] obtain s'
    where "queueMsg exact_fit Error ''svc1'' ''disk full'' (st w) = (Returned None, s')"
      "cbuf (messages s') = cbuf (messages (st w)) @ [1]"
      "bytes (msgArr s' ! 1) = bracketed Error @ ''  '' @ ''svc1'' @ '' '' @ ''disk full'' @ [CHR 0x00]"
    by (elim exE conjE)
  with r q show ?thesis
    by (intro exI [of _ evs] exI [of _ w] exI [of _ s']) (simp add: bracketed_def)
qed

subsection \<open>Shutdown drains the queue\<close>

text \<open>
  C3. Along every schedule, the messages queued are the messages written followed by
  the messages pending, in order: none is lost, none is written twice. What is written
  is in the sink: while \<open>SetCustomSocket\<close> has not been called, the calls of \<open>csyslog\<close>
  are the messages written, one call each, in order, with the level of the message and
  its bytes up to the NUL; after a call of \<open>SetCustomSocket\<close>, the strings written to
  the socket (the calls of \<open>csyslog\<close> since, when the dial failed) are the frames of the
  messages written since that call, one each, in order. Once \<open>drainTheQueue\<close> has
  returned, nothing is pending: the messages written are exactly the messages queued,
  the queue is empty, the writer has left its loop and released the wait group, and the
  socket it found (if no later setup call replaced it) is closed; so the sink chosen
  before the first write holds one record for every message queued, in the order of the
  queue, and nothing else. And the messages do get written: once the flag is set, the
  writer alone, whatever its writes report, writes every message queued to the sink,
  leaves its loop, and then the wait of \<open>drainTheQueue\<close> returns.
\<close>

theorem drained_exactly_once:
  assumes "exec grow acts (boot n) = Some (evs, w)"
  shows "queued evs = wrote evs @ pending w \<and>
         (SocketSet \<notin> set evs \<longrightarrow>
            customSock (st w) = None \<and>
            syslog_calls (st w) = map (syslog_entry \<circ> snd) (wrote evs)) \<and>
         (customSock (st w) = None \<longrightarrow>
            (\<exists>older. syslog_calls (st w) =
                        older @ map (syslog_entry \<circ> snd) (wrote (since_socket evs)))) \<and>
         (\<forall>c. customSock (st w) = Some c \<longrightarrow>
            writes c = map (framed \<circ> snd) (wrote (since_socket evs))) \<and>
         (DrainReturned \<in> set evs \<longrightarrow>
            wrote evs = queued evs \<and> pending w = [] \<and> cbuf (messages (st w)) = [] \<and>
            writer w = Exited \<and> WriterExit \<in> set evs \<and> wg (st w) = 0 \<and>
            (SocketSet \<notin> set (since_exit evs) \<longrightarrow> sock_closed (st w)) \<and>
            (SocketSet \<notin> set evs \<longrightarrow>
               syslog_calls (st w) = map (syslog_entry \<circ> snd) (queued evs)) \<and>
            (\<forall>c. customSock (st w) = Some c \<and> wrote (since_socket evs) = wrote evs \<longrightarrow>
               writes c = map (framed \<circ> snd) (queued evs))) \<and>
         (shuttingDown (st w) \<and> halted w = None \<longrightarrow>
            (\<forall>sunks. length sunks = writer_work w \<longrightarrow>
               (\<exists>evs' w'. exec grow (map WriterStep sunks) w = Some (evs', w') \<and>
                  wrote (evs @ evs') = queued evs \<and> writer w' = Exited \<and>
                  (SocketSet \<notin> set (since_exit (evs @ evs')) \<longrightarrow> sock_closed (st w')) \<and>
                  (SocketSet \<notin> set evs \<longrightarrow>
                     syslog_calls (st w') = map (syslog_entry \<circ> snd) (queued evs)) \<and>
                  (\<forall>c. customSock (st w') = Some c \<and> wrote (since_socket evs) = wrote evs \<longrightarrow>
                     writes c = map (framed \<circ> snd) (queued evs)) \<and>
                  (drain w = Waiting \<longrightarrow>
                     step grow DrainReturns w' =
                       Some (DrainReturned, w'\<lparr>drain := Finished\<rparr>)))))"
proof -
  from exec_invs [OF assms]
  have g: "guarded w" and a: "accounted n w" and t: "traced evs w" by simp_all
  note td = tracedD [OF t]
  note gd = guardedD [OF g]
  note dd = deliveredD [OF exec_delivered [OF assms]]
  have 1: "queued evs = wrote evs @ pending w" by (rule td(1))
  have s1: "customSock (st w) = None \<and>
            syslog_calls (st w) = map (syslog_entry \<circ> snd) (wrote evs)"
    if "SocketSet \<notin> set evs"
    using dd(1,2) [OF that] by simp
  have s2: "\<exists>older. syslog_calls (st w) =
                        older @ map (syslog_entry \<circ> snd) (wrote (since_socket evs))"
    if "customSock (st w) = None"
    using dd(3) [OF that] .
  have s3: "writes c = map (framed \<circ> snd) (wrote (since_socket evs))"
    if "customSock (st w) = Some c" for c
    using dd(4) [OF that] .
  have 2: "wrote evs = queued evs \<and> pending w = [] \<and> cbuf (messages (st w)) = [] \<and>
            writer w = Exited \<and> WriterExit \<in> set evs \<and> wg (st w) = 0 \<and>
            (SocketSet \<notin> set (since_exit evs) \<longrightarrow> sock_closed (st w)) \<and>
            (SocketSet \<notin> set evs \<longrightarrow>
               syslog_calls (st w) = map (syslog_entry \<circ> snd) (queued evs)) \<and>
            (\<forall>c. customSock (st w) = Some c \<and> wrote (since_socket evs) = wrote evs \<longrightarrow>
               writes c = map (framed \<circ> snd) (queued evs))"
    if "DrainReturned \<in> set evs"
  proof -
    have ex: "writer w = Exited" using that td(7) gd(8) by simp
    then have q: "cbuf (messages (st w)) = []" using gd(7) by simp
    have p: "pending w = []" using ex q by (simp add: pending_def)
    have wq: "wrote evs = queued evs" using td(1) p by simp
    have we: "WriterExit \<in> set evs" using td(5) ex by simp
    have wg: "wg (st w) = 0" using gd(6) ex by simp
    have sc: "SocketSet \<notin> set (since_exit evs) \<longrightarrow> sock_closed (st w)"
      using td(8) ex by simp
    have l: "SocketSet \<notin> set evs \<longrightarrow>
               syslog_calls (st w) = map (syslog_entry \<circ> snd) (queued evs)"
      using dd(2) wq by simp
    have r: "\<forall>c. customSock (st w) = Some c \<and> wrote (since_socket evs) = wrote evs \<longrightarrow>
               writes c = map (framed \<circ> snd) (queued evs)"
      using dd(4) wq by simp
    from wq p q ex we wg sc l r show ?thesis by (intro conjI)
  qed
  have 3: "\<exists>evs' w'. exec grow (map WriterStep sunks) w = Some (evs', w') \<and>
                  wrote (evs @ evs') = queued evs \<and> writer w' = Exited \<and>
                  (SocketSet \<notin> set (since_exit (evs @ evs')) \<longrightarrow> sock_closed (st w')) \<and>
                  (SocketSet \<notin> set evs \<longrightarrow>
                     syslog_calls (st w') = map (syslog_entry \<circ> snd) (queued evs)) \<and>
                  (\<forall>c. customSock (st w') = Some c \<and> wrote (since_socket evs) = wrote evs \<longrightarrow>
                     writes c = map (framed \<circ> snd) (queued evs)) \<and>
                  (drain w = Waiting \<longrightarrow>
                     step grow DrainReturns w' =
                       Some (DrainReturned, w'\<lparr>drain := Finished\<rparr>))"
    if sd: "shuttingDown (st w)" and h: "halted w = None" and l: "length sunks = writer_work w"
    for sunks
  proof -
    from shutdown_completes [OF assms sd h l] obtain evs' w'
      where r: "exec grow (map WriterStep sunks) w = Some (evs', w')"
        and e: "writer w' = Exited"
        and d: "drain w = Waiting \<longrightarrow>
                     step grow DrainReturns w' =
                       Some (DrainReturned, w'\<lparr>drain := Finished\<rparr>)"
      by blast
    have all: "exec grow (acts @ map WriterStep sunks) (boot n) = Some (evs @ evs', w')"
      using assms r by (simp add: exec_append)
    from exec_invs [OF all] have g': "guarded w'" and t': "traced (evs @ evs') w'" by simp_all
    note dd' = deliveredD [OF exec_delivered [OF all]]
    note ns = exec_writer_events [OF r]
    have "cbuf (messages (st w')) = []" using guardedD(7) [OF g'] e by simp
    then have p: "pending w' = []" using e by (simp add: pending_def)
    from exec_after_shutdown [OF conjI [OF g a] sd r] have "queued evs' = []" by simp
    then have "queued (evs @ evs') = queued evs" by (simp add: queued_def)
    then have w: "wrote (evs @ evs') = queued evs" using tracedD(1) [OF t'] p by simp
    have c: "SocketSet \<notin> set (since_exit (evs @ evs')) \<longrightarrow> sock_closed (st w')"
      using tracedD(8) [OF t'] e by simp
    have k: "SocketSet \<notin> set evs \<longrightarrow>
               syslog_calls (st w') = map (syslog_entry \<circ> snd) (queued evs)"
      using dd'(2) ns w by simp
    have "wrote (since_socket (evs @ evs')) = queued evs"
      if "wrote (since_socket evs) = wrote evs"
      using that w by (simp add: since_socket_append [OF ns] wrote_append)
    then have f: "\<forall>c. customSock (st w') = Some c \<and> wrote (since_socket evs) = wrote evs \<longrightarrow>
                     writes c = map (framed \<circ> snd) (queued evs)"
      using dd'(4) by simp
    from r w e c k f d show ?thesis by (intro exI conjI)
  qed
  from 1 s1 s2 s3 2 3 show ?thesis by blast
qed

text \<open>
  The witness: in \<open>shutdown_run\<close> the messages \<open>"y"\<close> and \<open>"x"\<close> are queued in this order,
  and when \<open>drainTheQueue\<close> has returned both are written, in this order, the writer has
  left, and the socket is closed and has received the two frames \<open><15>y\<close> and \<open><15>x\<close>,
  each with its NUL, and nothing else. In the same run without a socket, \<open>csyslog\<close> has
  been called twice, with \<open>y\<close> and with \<open>x\<close> at the priority 15. And from the point of
  \<open>shutdown_run\<close> where the flag has just been set, six steps of the writer, the second
  with a failing write, write both to the socket.
\<close>

theorem drained_exactly_once_witness:
  "(\<exists>evs w c. exec exact_fit shutdown_run (boot 2) = Some (evs, w) \<and>
     DrainReturned \<in> set evs \<and>
     wrote evs = [(1, \<lparr>bytes = ''y'' @ [CHR 0x00], bcap = 2, level = 7\<rparr>),
                  (0, \<lparr>bytes = ''x'' @ [CHR 0x00], bcap = 2, level = 7\<rparr>)] \<and>
     writer w = Exited \<and> sock_closed (st w) \<and> customSock (st w) = Some c \<and>
     writes c = [''<15>y'' @ [CHR 0x00], ''<15>x'' @ [CHR 0x00]]) \<and>
   (\<exists>evs w. exec exact_fit syslog_run (boot 2) = Some (evs, w) \<and>
     DrainReturned \<in> set evs \<and> customSock (st w) = None \<and>
     syslog_calls (st w) = [(15, ''y''), (15, ''x'')]) \<and>
   (\<exists>evs w evs' w'. exec exact_fit (take 7 shutdown_run) (boot 2) = Some (evs, w) \<and>
     shuttingDown (st w) \<and> halted w = None \<and> writer_work w = 6 \<and>
     exec exact_fit (map WriterStep [None, Some ErrExternal, None, None, None, None]) w =
       Some (evs', w') \<and>
     wrote (evs @ evs') = queued evs \<and> writer w' = Exited \<and>
     (\<forall>c. customSock (st w') = Some c \<longrightarrow>
        writes c = [''<15>y'' @ [CHR 0x00], ''<15>x'' @ [CHR 0x00]]) \<and>
     step exact_fit DrainReturns w' = Some (DrainReturned, w'\<lparr>drain := Finished\<rparr>))"
proof (intro conjI)
  from shutdown_run_socket obtain evs w c
    where r: "exec exact_fit shutdown_run (boot 2) = Some (evs, w)"
      and d: "DrainReturned \<in> set evs"
      and s: "SocketSet \<notin> set (since_exit evs)"
      and c: "customSock (st w) = Some c" and a: "wrote (since_socket evs) = wrote evs"
      and q: "queued evs = [(1, \<lparr>bytes = ''y'' @ [CHR 0x00], bcap = 2, level = 7\<rparr>),
                     (0, \<lparr>bytes = ''x'' @ [CHR 0x00], bcap = 2, level = 7\<rparr>)]"
    by (elim exE conjE)
  note th = drained_exactly_once [OF r, THEN conjunct2, THEN conjunct2, THEN conjunct2,
      THEN conjunct2, THEN conjunct1, rule_format, OF d]
  have 1: "wrote evs = queued evs" "writer w = Exited" "sock_closed (st w)"
    using th s by blast+
  have "writes c = map (framed \<circ> snd) (queued evs)"
    using th c a by blast
  then have 2: "writes c = [''<15>y'' @ [CHR 0x00], ''<15>x'' @ [CHR 0x00]]"
    unfolding q
    by (simp add: framed_def LOG_USER_def fmt_d_def decimal.simps digit_def)
  from r d q 1 c 2
  show "\<exists>evs w c. exec exact_fit shutdown_run (boot 2) = Some (evs, w) \<and>
     DrainReturned \<in> set evs \<and>
     wrote evs = [(1, \<lparr>bytes = ''y'' @ [CHR 0x00], bcap = 2, level = 7\<rparr>),
                  (0, \<lparr>bytes = ''x'' @ [CHR 0x00], bcap = 2, level = 7\<rparr>)] \<and>
     writer w = Exited \<and> sock_closed (st w) \<and> customSock (st w) = Some c \<and>
     writes c = [''<15>y'' @ [CHR 0x00], ''<15>x'' @ [CHR 0x00]]"
    by (intro exI [of _ evs] exI [of _ w] exI [of _ c]) simp
next
  from syslog_run_result obtain evs w
    where r: "exec exact_fit syslog_run (boot 2) = Some (evs, w)"
      and d: "DrainReturned \<in> set evs" and n: "SocketSet \<notin> set evs"
      and q: "queued evs = [(1, \<lparr>bytes = ''y'' @ [CHR 0x00], bcap = 2, level = 7\<rparr>),
                     (0, \<lparr>bytes = ''x'' @ [CHR 0x00], bcap = 2, level = 7\<rparr>)]"
    by (elim exE conjE)
  note th1 = drained_exactly_once [OF r, THEN conjunct2, THEN conjunct1, rule_format, OF n]
  note th = drained_exactly_once [OF r, THEN conjunct2, THEN conjunct2, THEN conjunct2,
      THEN conjunct2, THEN conjunct1, rule_format, OF d]
  have c: "customSock (st w) = None" using th1 by blast
  have "syslog_calls (st w) = map (syslog_entry \<circ> snd) (queued evs)"
    using th n by blast
  then have l: "syslog_calls (st w) = [(15, ''y''), (15, ''x'')]"
    unfolding q by (simp add: syslog_entry_def LOG_USER_def)
  from r d c l
  show "\<exists>evs w. exec exact_fit syslog_run (boot 2) = Some (evs, w) \<and>
     DrainReturned \<in> set evs \<and> customSock (st w) = None \<and>
     syslog_calls (st w) = [(15, ''y''), (15, ''x'')]"
    by (intro exI [of _ evs] exI [of _ w]) simp
next
  from shutdown_split_socket obtain evs w
    where r: "exec exact_fit (take 7 shutdown_run) (boot 2) = Some (evs, w)"
      and sd: "shuttingDown (st w)" and h: "halted w = None" and k: "writer_work w = 6"
      and d: "drain w = Waiting" and a: "wrote (since_socket evs) = wrote evs"
      and q: "queued evs = [(1, \<lparr>bytes = ''y'' @ [CHR 0x00], bcap = 2, level = 7\<rparr>),
                     (0, \<lparr>bytes = ''x'' @ [CHR 0x00], bcap = 2, level = 7\<rparr>)]"
    by (elim exE conjE)
  have l: "length [None, Some ErrExternal, None, None, None, None] = writer_work w"
    using k by simp
  note th = drained_exactly_once [OF r, THEN conjunct2, THEN conjunct2, THEN conjunct2,
      THEN conjunct2, THEN conjunct2, rule_format, OF conjI [OF sd h] l]
  then obtain evs' w'
    where e: "exec exact_fit (map WriterStep [None, Some ErrExternal, None, None, None, None]) w =
       Some (evs', w')"
      and w: "wrote (evs @ evs') = queued evs" "writer w' = Exited"
      and c: "\<forall>c. customSock (st w') = Some c \<and> wrote (since_socket evs) = wrote evs \<longrightarrow>
                     writes c = map (framed \<circ> snd) (queued evs)"
      and f: "drain w = Waiting \<longrightarrow>
         step exact_fit DrainReturns w' = Some (DrainReturned, w'\<lparr>drain := Finished\<rparr>)"
    by (elim exE conjE)
  from f d have g: "step exact_fit DrainReturns w' = Some (DrainReturned, w'\<lparr>drain := Finished\<rparr>)"
    by simp
  have "map (framed \<circ> snd) (queued evs) = [''<15>y'' @ [CHR 0x00], ''<15>x'' @ [CHR 0x00]]"
    unfolding q by (simp add: framed_def LOG_USER_def fmt_d_def decimal.simps digit_def)
  with c a have c': "\<forall>c. customSock (st w') = Some c \<longrightarrow>
        writes c = [''<15>y'' @ [CHR 0x00], ''<15>x'' @ [CHR 0x00]]"
    by simp
  from r sd h k e w c' g
  show "\<exists>evs w evs' w'. exec exact_fit (take 7 shutdown_run) (boot 2) = Some (evs, w) \<and>
     shuttingDown (st w) \<and> halted w = None \<and> writer_work w = 6 \<and>
     exec exact_fit (map WriterStep [None, Some ErrExternal, None, None, None, None]) w =
       Some (evs', w') \<and>
     wrote (evs @ evs') = queued evs \<and> writer w' = Exited \<and>
     (\<forall>c. customSock (st w') = Some c \<longrightarrow>
        writes c = [''<15>y'' @ [CHR 0x00], ''<15>x'' @ [CHR 0x00]]) \<and>
     step exact_fit DrainReturns w' = Some (DrainReturned, w'\<lparr>drain := Finished\<rparr>)"
    by (intro exI [of _ evs] exI [of _ w] exI [of _ evs'] exI [of _ w']) simp
qed

subsection \<open>After the flag is set\<close>

text \<open>
  C4. Once the flag is set, it stays set; from then on, along every continuation of the
  schedule, no message is queued and the queue does not grow; and at every point from
  then on a call of \<open>queueMsgDirect\<close> returns \<open>ErrUnavailable\<close> and leaves the whole
  state as it was (the process has not panicked).
\<close>

theorem after_shutdown:
  assumes "exec grow acts (boot n) = Some (evs, w)" and "shuttingDown (st w)"
    and "exec grow later w = Some (evs2, w2)"
  shows "shuttingDown (st w2) \<and>
         length (cbuf (messages (st w2))) \<le> length (cbuf (messages (st w))) \<and>
         queued evs2 = [] \<and>
         (halted w2 = None \<longrightarrow>
            (\<forall>e. queueMsgDirect grow e (st w2) = (Returned (Some ErrUnavailable), st w2) \<and>
                 step grow (CallQueueMsgDirect e) w2 = Some (Rejected, w2)))"
proof -
  from exec_invs [OF assms(1)] have ga: "guarded w \<and> accounted n w" by simp
  note r = exec_after_shutdown [OF ga assms(2,3)]
  then have g2: "guarded w2" and a2: "accounted n w2" and sd2: "shuttingDown (st w2)"
    by simp_all
  { fix e assume h: "halted w2 = None"
    then have nl: "\<not> locked (st w2)" using guardedD(2) [OF g2] by auto
    have "queueMsgDirect grow e (st w2) = (Returned (Some ErrUnavailable), st w2)"
      by (rule queueMsgDirect_unavailable [OF nl sd2])
    moreover have "step grow (CallQueueMsgDirect e) w2 = Some (Rejected, w2)"
      using h sd2 by (simp add: step_def step_call_cases [OF g2 a2 h])
    ultimately have "queueMsgDirect grow e (st w2) = (Returned (Some ErrUnavailable), st w2) \<and>
                 step grow (CallQueueMsgDirect e) w2 = Some (Rejected, w2)" by simp }
  with r show ?thesis by blast
qed

theorem after_shutdown_witness:
  "\<exists>evs w evs2 w2. exec exact_fit (take 7 shutdown_run) (boot 2) = Some (evs, w) \<and>
     shuttingDown (st w) \<and>
     exec exact_fit (drop 7 shutdown_run) w = Some (evs2, w2) \<and>
     shuttingDown (st w2) \<and> queued evs2 = [] \<and>
     length (cbuf (messages (st w2))) \<le> length (cbuf (messages (st w))) \<and>
     queueMsgDirect exact_fit ''z'' (st w2) = (Returned (Some ErrUnavailable), st w2)"
proof -
  from shutdown_split_result obtain evs w evs2 w2
    where r: "exec exact_fit (take 7 shutdown_run) (boot 2) = Some (evs, w)"
      and sd: "shuttingDown (st w)"
      and r2: "exec exact_fit (drop 7 shutdown_run) w = Some (evs2, w2)"
      and h: "halted w2 = None"
    by (elim exE conjE)
  note th = after_shutdown [OF r sd r2]
  have "shuttingDown (st w2)" "queued evs2 = []"
    "length (cbuf (messages (st w2))) \<le> length (cbuf (messages (st w)))"
    "queueMsgDirect exact_fit ''z'' (st w2) = (Returned (Some ErrUnavailable), st w2)"
    using th h by blast+
  with r sd r2 show ?thesis
    by (intro exI [of _ evs] exI [of _ w] exI [of _ evs2] exI [of _ w2]) simp
qed

subsection \<open>The empty pool\<close>

text \<open>
  C5. With \<open>n\<close> messages, \<open>n\<close> calls in a row each take a message from the pool; the
  pool is then empty, and the next call counts a drop and returns nil, not an error.
\<close>

theorem exhausted_pool_returns_nil:
  assumes "length es = n"
  shows "\<exists>w. exec grow (map CallQueueMsgDirect es) (boot n) = Some (map Acquired [0..<n], w) \<and>
           cbuf (freeMessages (st w)) = [] \<and>
           queueMsgDirect grow e (st w) =
             (Returned None,
              (st w)\<lparr>logCount := logCount (st w) + 1, dropCount := dropCount (st w) + 1\<rparr>)"
proof -
  have b: "halted (boot n) = None" "\<not> locked (st (boot n))" "\<not> shuttingDown (st (boot n))"
    "cbuf (freeMessages (st (boot n))) = [0..<n]" "\<not> cclosed (freeMessages (st (boot n)))"
    by (simp_all add: boot_eq vars_def)
  have "length es \<le> length (cbuf (freeMessages (st (boot n))))"
    using assms b(4) by simp
  from acquire_all [OF b(1-3) this, of grow] b(4,5) assms
  obtain w where w: "exec grow (map CallQueueMsgDirect es) (boot n) = Some (map Acquired [0..<n], w)"
    "\<not> locked (st w)" "\<not> shuttingDown (st w)" "cbuf (freeMessages (st w)) = []"
    "\<not> cclosed (freeMessages (st w))"
    by auto
  have "queueMsgDirect grow e (st w) =
             (Returned None,
              (st w)\<lparr>logCount := logCount (st w) + 1, dropCount := dropCount (st w) + 1\<rparr>)"
    using w(2-5) by (simp add: queueMsgDirect_def acquire_eq)
  with w(1,4) show ?thesis by (intro exI [of _ w]) simp
qed

theorem exhausted_pool_returns_nil_witness:
  "\<exists>w. exec exact_fit (map CallQueueMsgDirect [''a'', ''b'']) (boot 2) =
          Some (map Acquired [0..<2], w) \<and>
        cbuf (freeMessages (st w)) = [] \<and>
        fst (queueMsgDirect exact_fit ''c'' (st w)) = Returned None \<and>
        dropCount (snd (queueMsgDirect exact_fit ''c'' (st w))) = dropCount (st w) + 1"
proof -
  have l: "length [''a'', ''b''] = 2" by simp
  from exhausted_pool_returns_nil [OF l, of exact_fit "''c''"] obtain w
    where w: "exec exact_fit (map CallQueueMsgDirect [''a'', ''b'']) (boot 2) =
          Some (map Acquired [0..<2], w)"
      "cbuf (freeMessages (st w)) = []"
      "queueMsgDirect exact_fit ''c'' (st w) =
             (Returned None,
              (st w)\<lparr>logCount := logCount (st w) + 1, dropCount := dropCount (st w) + 1\<rparr>)"
    by (elim exE conjE)
  show ?thesis
    using w by (intro exI [of _ w]) simp
qed

subsection \<open>The accounting of the messages\<close>

text \<open>
  C6. In every world the program reaches, the pointers in the pool, in the queue, in
  the hands of producers and in the hands of the writer are together the \<open>n\<close> elements
  of the array, each exactly once; so their number is at most \<open>n\<close> and none is
  duplicated. The queue was never found full, no step from here finds it full, and a
  whole call of \<open>queueMsgDirect\<close> from here does not return \<open>ErrLogFullBuf\<close>.
\<close>

theorem pool_accounting:
  assumes "exec grow acts (boot n) = Some (evs, w)"
  shows "length (cbuf (freeMessages (st w))) + length (cbuf (messages (st w))) +
           length (producers w) + length (held (writer w)) \<le> n \<and>
         mset (owned w) = mset [0..<n] \<and> distinct (owned w) \<and>
         (\<forall>p. QueueFull p \<notin> set evs) \<and>
         (\<forall>a ev w' p. step grow a w = Some (ev, w') \<longrightarrow> ev \<noteq> QueueFull p) \<and>
         (\<forall>e. fst (queueMsgDirect grow e (st w)) \<noteq> Returned (Some ErrLogFullBuf))"
proof -
  from exec_invs [OF assms]
  have g: "guarded w" and a: "accounted n w" and t: "traced evs w" by simp_all
  have 1: "length (cbuf (freeMessages (st w))) + length (cbuf (messages (st w))) +
           length (producers w) + length (held (writer w)) \<le> n"
    using accounted_length [OF a] by simp
  have 2: "mset (owned w) = mset [0..<n]" by (rule accountedD(1) [OF a])
  have 3: "distinct (owned w)" by (rule accounted_distinct [OF a])
  have 4: "\<forall>p. QueueFull p \<notin> set evs" using tracedD(2) [OF t] by simp
  have 5: "ev \<noteq> QueueFull p" if "step grow a w = Some (ev, w')" for a ev w' p
    using that g a by (cases rule: step_elim) simp_all
  have 6: "fst (queueMsgDirect grow e (st w)) \<noteq> Returned (Some ErrLogFullBuf)" for e
  proof (cases "locked (st w) \<or> shuttingDown (st w) \<or> cbuf (freeMessages (st w)) = []")
    case True
    then show ?thesis
      by (auto simp: queueMsgDirect_def acquire_eq)
  next
    case False
    then obtain msg rest where f: "cbuf (freeMessages (st w)) = msg # rest"
      by (cases "cbuf (freeMessages (st w))") auto
    have op: "\<not> cclosed (messages (st w))" using guardedD(3) [OF g] False by simp
    have room: "length (cbuf (messages (st w))) < ccap (messages (st w))"
      using accounted_length [OF a] accountedD(3) [OF a] f by simp
    from queueMsgDirect_queued [OF _ _ f op room, of grow e] False
    show ?thesis by auto
  qed
  from 1 2 3 4 5 6 show ?thesis by blast
qed

theorem pool_accounting_witness:
  "\<exists>evs w. exec exact_fit (take 6 shutdown_run) (boot 2) = Some (evs, w) \<and>
     cbuf (freeMessages (st w)) = [] \<and> cbuf (messages (st w)) = [0] \<and>
     producers w = [] \<and> writer w = Writing 1 \<and>
     length (cbuf (freeMessages (st w))) + length (cbuf (messages (st w))) +
       length (producers w) + length (held (writer w)) \<le> 2 \<and>
     distinct (owned w) \<and>
     fst (queueMsgDirect exact_fit ''z'' (st w)) \<noteq> Returned (Some ErrLogFullBuf)"
proof -
  have "\<exists>evs w. exec exact_fit (take 6 shutdown_run) (boot 2) = Some (evs, w) \<and>
     cbuf (freeMessages (st w)) = [] \<and> cbuf (messages (st w)) = [0] \<and>
     producers w = [] \<and> writer w = Writing 1"
    by (simp add: shutdown_run_def demo_defs)
  then obtain evs w
    where r: "exec exact_fit (take 6 shutdown_run) (boot 2) = Some (evs, w)"
      and s: "cbuf (freeMessages (st w)) = []" "cbuf (messages (st w)) = [0]"
        "producers w = []" "writer w = Writing 1"
    by (elim exE conjE)
  note th = pool_accounting [OF r]
  have "length (cbuf (freeMessages (st w))) + length (cbuf (messages (st w))) +
       length (producers w) + length (held (writer w)) \<le> 2"
    "distinct (owned w)"
    "fst (queueMsgDirect exact_fit ''z'' (st w)) \<noteq> Returned (Some ErrLogFullBuf)"
    using th by blast+
  with r s show ?thesis
    by (intro exI [of _ evs] exI [of _ w]) simp
qed

subsection \<open>A second shutdown\<close>

text \<open>
  C7, as the claim states it, fails: after a first \<open>drainTheQueue\<close> has returned, a
  second one panics. It is not a no-op (the write lock stays held), it returns no error,
  and the panic ends the process.
\<close>

theorem second_shutdown_counterexample:
  "map_option fst (exec exact_fit (first_shutdown @ [CallDrainTheQueue]) (boot NumMessages)) =
     Some [DrainClosed, WriterExit, DrainReturned, Fault CloseOfClosedChannel] \<and>
   map_option (halted \<circ> snd)
       (exec exact_fit (first_shutdown @ [CallDrainTheQueue]) (boot NumMessages)) =
     Some (Some CloseOfClosedChannel) \<and>
   map_option (fst \<circ> drainTheQueue \<circ> st \<circ> snd)
       (exec exact_fit first_shutdown (boot NumMessages)) =
     Some (Panicked CloseOfClosedChannel) \<and>
   map_option (locked \<circ> snd \<circ> drainTheQueue \<circ> st \<circ> snd)
       (exec exact_fit first_shutdown (boot NumMessages)) =
     Some True"
  unfolding first_shutdown_def boot_eq
  by (simp add: vars_def make_chan_def run_defs)

text \<open>
  C7, as amended. In every world the program reaches in which \<open>drainTheQueue\<close> has
  returned, a second call panics with the close of a closed channel, always: it sets the
  flag again, takes the write lock and keeps it, changes nothing else, and the process
  halts.
\<close>

theorem second_shutdown_panics:
  assumes "exec grow acts (boot n) = Some (evs, w)"
    and "DrainReturned \<in> set evs" and "halted w = None"
  shows "drainTheQueue (st w) = (Panicked CloseOfClosedChannel, (st w)\<lparr>locked := True\<rparr>) \<and>
         step grow CallDrainTheQueue w =
           Some (Fault CloseOfClosedChannel,
                 w\<lparr>st := (st w)\<lparr>locked := True\<rparr>, halted := Some CloseOfClosedChannel\<rparr>)"
proof -
  from exec_invs [OF assms(1)]
  have g: "guarded w" and t: "traced evs w" by simp_all
  note gd = guardedD [OF g]
  have f: "drain w = Finished" using tracedD(7) [OF t] assms(2) by simp
  then have sd: "shuttingDown (st w)" using gd(5) by auto
  then have cl: "cclosed (messages (st w))" using gd(3) by simp
  have r: "readers (st w) = 0" using gd(1) gd(4) sd by simp
  have nl: "\<not> locked (st w)" using gd(2) assms(3) by auto
  have same: "(st w)\<lparr>locked := True, shuttingDown := True\<rparr> = (st w)\<lparr>locked := True\<rparr>"
    using sd by simp
  have "drainTheQueue (st w) = (Panicked CloseOfClosedChannel, (st w)\<lparr>locked := True\<rparr>)"
    using cl r nl same by (simp add: drainTheQueue_def drainTheQueue_close_def Let_def)
  moreover have "step grow CallDrainTheQueue w =
           Some (Fault CloseOfClosedChannel,
                 w\<lparr>st := (st w)\<lparr>locked := True\<rparr>, halted := Some CloseOfClosedChannel\<rparr>)"
    using cl r nl same assms(3) by (simp add: step_def step_drain_cases)
  ultimately show ?thesis by simp
qed

theorem second_shutdown_panics_witness:
  "\<exists>evs w. exec exact_fit shutdown_run (boot 2) = Some (evs, w) \<and>
     DrainReturned \<in> set evs \<and> halted w = None \<and>
     drainTheQueue (st w) = (Panicked CloseOfClosedChannel, (st w)\<lparr>locked := True\<rparr>)"
proof -
  from shutdown_run_result obtain evs w
    where r: "exec exact_fit shutdown_run (boot 2) = Some (evs, w)"
      and d: "DrainReturned \<in> set evs" and h: "halted w = None"
    by (elim exE conjE)
  from second_shutdown_panics [OF r d h]
  have "drainTheQueue (st w) = (Panicked CloseOfClosedChannel, (st w)\<lparr>locked := True\<rparr>)"
    by (rule conjunct1)
  with r d h show ?thesis
    by (intro exI [of _ evs] exI [of _ w]) simp
qed

subsection \<open>The drop counter\<close>

text \<open>
  C8. The drop counter goes up by one in a call of \<open>queueMsgDirect\<close> that finds the pool
  empty (the mutex free, no shutdown), and in no other call and no other function of the
  file: not where the queue is full, not where a write fails, not where the pool
  overflows, not in a setup call. Those leave the count of calls alone too and count in
  the error counter, if they count at all (a failed \<open>SetCustomSocket\<close> counts nowhere).
  In the concurrent program every step changes the drop counter by one if it is a drop
  and by nothing otherwise.
\<close>

theorem drop_counter:
  "dropCount (snd (queueMsgDirect grow e s)) =
     dropCount s +
       (if \<not> locked s \<and> \<not> shuttingDown s \<and> cbuf (freeMessages s) = [] \<and>
           \<not> cclosed (freeMessages s)
        then 1 else 0) \<and>
   dropCount (snd (queueMsgDirect_queue grow e msg s)) = dropCount s \<and>
   dropCount (snd (freeMsg msg s)) = dropCount s \<and>
   dropCount (snd (write_syslog sunk msg s)) = dropCount s \<and>
   dropCount (snd (writeCustomSocket sunk msg s)) = dropCount s \<and>
   dropCount (snd (logWriter_recycle msg s)) = dropCount s \<and>
   dropCount (logWriter_exit s) = dropCount s \<and>
   dropCount (snd (SetLogName p opened s)) = dropCount s \<and>
   dropCount (snd (SetCustomSocket dialed s)) = dropCount s \<and>
   dropCount (snd (drainTheQueue s)) = dropCount s \<and>
   dropCount (init n s) = dropCount s \<and>
   logCount (snd (queueMsgDirect_queue grow e msg s)) = logCount s \<and>
   logCount (snd (freeMsg msg s)) = logCount s \<and>
   logCount (snd (write_syslog sunk msg s)) = logCount s \<and>
   logCount (snd (writeCustomSocket sunk msg s)) = logCount s \<and>
   logCount (snd (SetLogName p opened s)) = logCount s \<and>
   logCount (snd (SetCustomSocket dialed s)) = logCount s \<and>
   errCount (snd (queueMsgDirect_queue grow e msg s)) =
     errCount s +
       (if cclosed (messages s) \<or> length (cbuf (messages s)) < ccap (messages s) then 0
        else if cclosed (freeMessages s) \<or> length (cbuf (freeMessages s)) < ccap (freeMessages s)
        then 1 else 2) \<and>
   errCount (snd (freeMsg msg s)) =
     errCount s + (if fst (freeMsg msg s) = Returned (Some ErrFreeMessageOverflow) then 1 else 0) \<and>
   errCount (snd (write_syslog sunk msg s)) =
     errCount s + (case fst (write_syslog sunk msg s) of Returned (Some x) \<Rightarrow> 1 | _ \<Rightarrow> 0) \<and>
   errCount (snd (writeCustomSocket sunk msg s)) =
     errCount s + (case fst (writeCustomSocket sunk msg s) of Returned (Some x) \<Rightarrow> 1 | _ \<Rightarrow> 0) \<and>
   errCount (snd (SetLogName p opened s)) = errCount s + (if opened = None then 0 else 1) \<and>
   errCount (snd (SetCustomSocket dialed s)) = errCount s \<and>
   (\<forall>a w ev w'. step grow a w = Some (ev, w') \<longrightarrow>
      dropCount (st w') = dropCount (st w) + (if ev = Dropped then 1 else 0))"
proof -
  have "dropCount (snd (logWriter_recycle msg s)) = dropCount s"
    using freeMsg_counters [of msg "s\<lparr>msgArr := (msgArr s)[msg := recycle (msgArr s ! msg)]\<rparr>"]
    by (simp add: logWriter_recycle_def)
  moreover have "dropCount (logWriter_exit s) = dropCount s"
    using logWriter_exit_frame [of s] by simp
  moreover have "\<forall>a w ev w'. step grow a w = Some (ev, w') \<longrightarrow>
      dropCount (st w') = dropCount (st w) + (if ev = Dropped then 1 else 0)"
    using step_dropCount by blast
  ultimately show ?thesis
    using queueMsgDirect_dropCount [of grow e s] queue_counters [of grow e msg s]
      freeMsg_counters [of msg s] write_counters [of sunk msg s]
      setup_counters [of p opened s dialed] drain_counters [of s] init_dropCount [of n s]
    by (intro conjI) (simp_all only: simp_thms)
qed

theorem drop_counter_witness:
  "dropCount (snd (queueMsgDirect exact_fit ''c'' (vars 2))) = 1 \<and>
   fst (queueMsgDirect exact_fit ''c'' overfull) = Returned (Some ErrLogFullBuf) \<and>
   dropCount (snd (queueMsgDirect exact_fit ''c'' overfull)) = 0 \<and>
   map_option fst (step exact_fit (CallQueueMsgDirect ''c'') empty_pool) = Some Dropped \<and>
   map_option (dropCount \<circ> st \<circ> snd) (step exact_fit (CallQueueMsgDirect ''c'') empty_pool) = Some 1"
proof -
  note th = drop_counter [of exact_fit "''c''"]
  have 1: "dropCount (snd (queueMsgDirect exact_fit ''c'' (vars 2))) = 1"
    using th [of "vars 2", THEN conjunct1] by (simp add: vars_def make_chan_def)
  have 2: "dropCount (snd (queueMsgDirect exact_fit ''c'' overfull)) = 0"
    using th [of overfull, THEN conjunct1] by (simp add: overfull_def vars_def make_chan_def)
  have 3: "fst (queueMsgDirect exact_fit ''c'' overfull) = Returned (Some ErrLogFullBuf)"
    by (simp add: overfull_def vars_def make_chan_def run_defs)
  obtain ev w' where s: "step exact_fit (CallQueueMsgDirect ''c'') empty_pool = Some (ev, w')"
    and ev: "ev = Dropped"
    by (simp add: empty_pool_def vars_def make_chan_def run_defs)
  have "dropCount (st w') = dropCount (st empty_pool) + (if ev = Dropped then 1 else 0)"
    using drop_counter [of exact_fit] s by blast
  then have 4: "dropCount (st w') = 1"
    using ev by (simp add: empty_pool_def vars_def)
  from 1 2 3 4 s ev show ?thesis by simp
qed

subsection \<open>Recycling\<close>

text \<open>
  C9. In every world the program reaches in which the writer has written a message and
  is about to recycle it, the next step of the writer returns the message to the pool,
  and the message returned is: when its capacity is at most 8 KiB, the same message
  with the same capacity and level and no contents; when its capacity is above, the
  zero message, of capacity 0. Then a write that fits the capacity leaves the capacity
  as it is: nothing is allocated.
\<close>

theorem recycle_threshold:
  assumes "exec grow acts (boot n) = Some (evs, w)"
    and "writer w = Recycling msg" and "halted w = None"
  shows "\<exists>w'. step grow (WriterStep sunk) w = Some (Recycled msg, w') \<and>
           cbuf (freeMessages (st w')) = cbuf (freeMessages (st w)) @ [msg] \<and>
           msgArr (st w') ! msg =
             (if bcap (msgArr (st w) ! msg) \<le> 8 * 1024
              then (msgArr (st w) ! msg)\<lparr>bytes := []\<rparr>
              else \<lparr>bytes = [], bcap = 0, level = 0\<rparr>) \<and>
           (\<forall>p. length p \<le> bcap (msgArr (st w') ! msg) \<longrightarrow>
                bcap (Write grow p (msgArr (st w') ! msg)) = bcap (msgArr (st w') ! msg))"
proof -
  from exec_invs [OF assms(1)] have a: "accounted n w" by simp
  let ?m = "msgArr (st w) ! msg"
  let ?w' = "w\<lparr>st := (st w)\<lparr>msgArr := (msgArr (st w))[msg := recycle ?m],
                     freeMessages := (freeMessages (st w))\<lparr>cbuf := cbuf (freeMessages (st w)) @ [msg]\<rparr>\<rparr>,
                writer := Receiving\<rparr>"
  have "msg \<in> set (owned w)" using assms(2) by (simp add: owned_def)
  then have len: "msg < length (msgArr (st w))"
    using accounted_set [OF a] accountedD(4) [OF a] by simp
  have s: "step grow (WriterStep sunk) w = Some (Recycled msg, ?w')"
    using assms(3) by (simp add: step_def step_writer_recycling [OF a assms(2)])
  have m: "msgArr (st ?w') ! msg = recycle ?m" using len by simp
  have r: "recycle ?m = (if bcap ?m \<le> 8 * 1024 then ?m\<lparr>bytes := []\<rparr>
                         else \<lparr>bytes = [], bcap = 0, level = 0\<rparr>)"
    by (simp add: recycle_def Cap_def MaxFreeMsgSize_def Reset_def zeroMessage_def)
  have f: "bcap (Write grow p (recycle ?m)) = bcap (recycle ?m)"
    if "length p \<le> bcap (recycle ?m)" for p
    using that by (simp add: Write_def Let_def bytes_recycle)
  show ?thesis
    using s m r f by (intro exI [of _ ?w']) (simp del: One_nat_def)
qed

theorem recycle_threshold_witness:
  "(\<exists>evs w w'. exec exact_fit (to_recycling ''x'') (boot 2) = Some (evs, w) \<and>
      writer w = Recycling 0 \<and>
      step exact_fit (WriterStep None) w = Some (Recycled 0, w') \<and>
      msgArr (st w') ! 0 = \<lparr>bytes = [], bcap = 2, level = 7\<rparr>) \<and>
   (\<exists>evs w w'. exec exact_fit (to_recycling big_entry) (boot 2) = Some (evs, w) \<and>
      writer w = Recycling 0 \<and> bcap (msgArr (st w) ! 0) = 8193 \<and>
      step exact_fit (WriterStep None) w = Some (Recycled 0, w') \<and>
      msgArr (st w') ! 0 = \<lparr>bytes = [], bcap = 0, level = 0\<rparr>)"
proof (rule conjI)
  from recycling_small obtain evs w
    where r: "exec exact_fit (to_recycling ''x'') (boot 2) = Some (evs, w)"
      and p: "writer w = Recycling 0" and h: "halted w = None"
      and m: "msgArr (st w) ! 0 = \<lparr>bytes = ''x'' @ [CHR 0x00], bcap = 2, level = 7\<rparr>"
    by (elim exE conjE)
  from recycle_threshold [OF r p h, of None] obtain w'
    where "step exact_fit (WriterStep None) w = Some (Recycled 0, w')"
      "msgArr (st w') ! 0 =
             (if bcap (msgArr (st w) ! 0) \<le> 8 * 1024
              then (msgArr (st w) ! 0)\<lparr>bytes := []\<rparr>
              else \<lparr>bytes = [], bcap = 0, level = 0\<rparr>)"
    by (elim exE conjE)
  with r p m show "\<exists>evs w w'. exec exact_fit (to_recycling ''x'') (boot 2) = Some (evs, w) \<and>
      writer w = Recycling 0 \<and>
      step exact_fit (WriterStep None) w = Some (Recycled 0, w') \<and>
      msgArr (st w') ! 0 = \<lparr>bytes = [], bcap = 2, level = 7\<rparr>"
    by (intro exI [of _ evs] exI [of _ w] exI [of _ w']) simp
next
  from recycling_big obtain evs w
    where r: "exec exact_fit (to_recycling big_entry) (boot 2) = Some (evs, w)"
      and p: "writer w = Recycling 0" and h: "halted w = None"
      and m: "bcap (msgArr (st w) ! 0) = 8193"
    by (elim exE conjE)
  from recycle_threshold [OF r p h, of None] obtain w'
    where "step exact_fit (WriterStep None) w = Some (Recycled 0, w')"
      "msgArr (st w') ! 0 =
             (if bcap (msgArr (st w) ! 0) \<le> 8 * 1024
              then (msgArr (st w) ! 0)\<lparr>bytes := []\<rparr>
              else \<lparr>bytes = [], bcap = 0, level = 0\<rparr>)"
    by (elim exE conjE)
  with r p m show "\<exists>evs w w'. exec exact_fit (to_recycling big_entry) (boot 2) = Some (evs, w) \<and>
      writer w = Recycling 0 \<and> bcap (msgArr (st w) ! 0) = 8193 \<and>
      step exact_fit (WriterStep None) w = Some (Recycled 0, w') \<and>
      msgArr (st w') ! 0 = \<lparr>bytes = [], bcap = 0, level = 0\<rparr>"
    by (intro exI [of _ evs] exI [of _ w] exI [of _ w']) simp
qed

subsection \<open>The error path of a call\<close>

text \<open>
  C10. A call of \<open>queueMsgDirect\<close> that has taken a message from the pool and returns
  an error returns \<open>ErrLogFullBuf\<close>, and on return the message is back in the pool, at
  its end; the pool holds the same messages as before the call and the queue is as it
  was. (The pool had room: the call had just taken a message out of it.)
\<close>

theorem error_path_releases:
  assumes "queueMsgDirect_acquire s = Holding msg s1"
    and "length (cbuf (freeMessages s)) \<le> ccap (freeMessages s)"
    and "queueMsgDirect grow e s = (Returned (Some err), s')"
  shows "err = ErrLogFullBuf \<and>
         cbuf (freeMessages s) = msg # tl (cbuf (freeMessages s)) \<and>
         cbuf (freeMessages s') = tl (cbuf (freeMessages s)) @ [msg] \<and>
         mset (cbuf (freeMessages s')) = mset (cbuf (freeMessages s)) \<and>
         cbuf (messages s') = cbuf (messages s)"
proof -
  from assms(1) obtain rest where f: "cbuf (freeMessages s) = msg # rest"
    and nl: "\<not> locked s" and sd: "\<not> shuttingDown s"
    and s1: "s1 = s\<lparr>readers := readers s + 1, logCount := logCount s + 1,
                      freeMessages := (freeMessages s)\<lparr>cbuf := rest\<rparr>\<rparr>"
    by (auto simp: acquire_eq split: if_splits list.splits)
  have room: "length rest < ccap (freeMessages s)" using assms(2) f by simp
  have q: "queueMsgDirect_queue grow e msg s1 = (Returned (Some err), s')"
    using assms(1,3) by (simp add: queueMsgDirect_def)
  have "err = ErrLogFullBuf \<and> cbuf (freeMessages s') = rest @ [msg] \<and>
        cbuf (messages s') = cbuf (messages s)"
    using q room unfolding s1
    by (auto simp: queueMsgDirect_queue_def freeMsg_def select_send_def RUnlock_def Let_def
        split: if_splits)
  then show ?thesis using f by simp
qed

theorem error_path_releases_witness:
  "queueMsgDirect_acquire overfull =
     Holding 0 (overfull\<lparr>readers := 1, logCount := 1,
                         freeMessages := \<lparr>cbuf = [], ccap = 1, cclosed = False\<rparr>\<rparr>) \<and>
   fst (queueMsgDirect exact_fit ''c'' overfull) = Returned (Some ErrLogFullBuf) \<and>
   cbuf (freeMessages (snd (queueMsgDirect exact_fit ''c'' overfull))) = [0] \<and>
   cbuf (messages (snd (queueMsgDirect exact_fit ''c'' overfull))) = [0]"
proof -
  have a: "queueMsgDirect_acquire overfull =
     Holding 0 (overfull\<lparr>readers := 1, logCount := 1,
                         freeMessages := \<lparr>cbuf = [], ccap = 1, cclosed = False\<rparr>\<rparr>)"
    by (simp add: overfull_def vars_def make_chan_def run_defs)
  have l: "length (cbuf (freeMessages overfull)) \<le> ccap (freeMessages overfull)"
    by (simp add: overfull_def)
  have r: "fst (queueMsgDirect exact_fit ''c'' overfull) = Returned (Some ErrLogFullBuf)"
    by (simp add: overfull_def vars_def make_chan_def run_defs)
  then have q: "queueMsgDirect exact_fit ''c'' overfull =
    (Returned (Some ErrLogFullBuf), snd (queueMsgDirect exact_fit ''c'' overfull))"
    by (metis prod.collapse)
  from error_path_releases [OF a l q]
  have "cbuf (freeMessages (snd (queueMsgDirect exact_fit ''c'' overfull))) = [0]"
    "cbuf (messages (snd (queueMsgDirect exact_fit ''c'' overfull))) = [0]"
    by (simp_all add: overfull_def)
  with a r show ?thesis by simp
qed

section \<open>Further properties\<close>

subsection \<open>The full queue\<close>

text \<open>
  The comment above \<open>queueMsgDirect\<close> says that it will drop the message and return
  an error if the channel is full. In every world the program reaches in which the
  queue is full, the pool is empty, and the call drops the message and returns nil.
\<close>

theorem full_queue_returns_nil:
  assumes "exec grow acts (boot n) = Some (evs, w)"
    and "length (cbuf (messages (st w))) = ccap (messages (st w))"
    and "\<not> shuttingDown (st w)" and "halted w = None"
  shows "queueMsgDirect grow e (st w) =
           (Returned None,
            (st w)\<lparr>logCount := logCount (st w) + 1, dropCount := dropCount (st w) + 1\<rparr>)"
proof -
  from exec_invs [OF assms(1)] have g: "guarded w" and a: "accounted n w" by simp_all
  have "cbuf (freeMessages (st w)) = []"
    using accounted_length [OF a] accountedD(3) [OF a] assms(2) by simp
  moreover have "\<not> locked (st w)" using guardedD(2) [OF g] assms(4) by auto
  ultimately show ?thesis
    using assms(3) accountedD(5) [OF a] by (simp add: queueMsgDirect_def acquire_eq)
qed

theorem full_queue_returns_nil_witness:
  "\<exists>evs w. exec exact_fit (take 5 shutdown_run) (boot 2) = Some (evs, w) \<and>
     cbuf (messages (st w)) = [1, 0] \<and>
     fst (queueMsgDirect exact_fit ''z'' (st w)) = Returned None \<and>
     dropCount (snd (queueMsgDirect exact_fit ''z'' (st w))) = 1"
proof -
  have "\<exists>evs w. exec exact_fit (take 5 shutdown_run) (boot 2) = Some (evs, w) \<and>
     cbuf (messages (st w)) = [1, 0] \<and> ccap (messages (st w)) = 2 \<and>
     \<not> shuttingDown (st w) \<and> halted w = None \<and> dropCount (st w) = 0"
    by (simp add: shutdown_run_def demo_defs)
  then obtain evs w
    where r: "exec exact_fit (take 5 shutdown_run) (boot 2) = Some (evs, w)"
      and q: "cbuf (messages (st w)) = [1, 0]" and c: "ccap (messages (st w)) = 2"
      and s: "\<not> shuttingDown (st w)" and h: "halted w = None" and d: "dropCount (st w) = 0"
    by (elim exE conjE)
  have l: "length (cbuf (messages (st w))) = ccap (messages (st w))" using q c by simp
  from full_queue_returns_nil [OF r l s h, of "''z''"] d
  have "fst (queueMsgDirect exact_fit ''z'' (st w)) = Returned None"
    "dropCount (snd (queueMsgDirect exact_fit ''z'' (st w))) = 1"
    by simp_all
  with r q show ?thesis
    by (intro exI [of _ evs] exI [of _ w]) simp
qed

subsection \<open>Panics\<close>

text \<open>
  The only panic the program reaches is the close of the closed channel in a second
  \<open>drainTheQueue\<close>: no send on a closed channel, no nil message, no empty or
  unterminated buffer handed to \<open>csyslog\<close>. The writer's test of \<open>customSock\<close> and its
  write are one step of the schedules here; a call of \<open>SetCustomSocket\<close> whose dial
  fails between the two, which nothing in the program excludes, is therefore not among
  them.
\<close>

theorem only_panic_is_second_close:
  assumes "exec grow acts (boot n) = Some (evs, w)"
  shows "(\<forall>f. Fault f \<in> set evs \<longrightarrow> f = CloseOfClosedChannel) \<and>
         (\<forall>f. halted w = Some f \<longrightarrow>
              f = CloseOfClosedChannel \<and> Fault f \<in> set evs \<and> DrainClosed \<in> set evs)"
proof -
  from exec_invs [OF assms] have g: "guarded w" and t: "traced evs w" by simp_all
  have 1: "f = CloseOfClosedChannel" if "Fault f \<in> set evs" for f
    using tracedD(3) [OF t that] .
  have 2: "f = CloseOfClosedChannel \<and> Fault f \<in> set evs \<and> DrainClosed \<in> set evs"
    if "halted w = Some f" for f
  proof -
    note h = exec_halted [OF assms that]
    then have "drain w \<noteq> NotCalled" using guardedD(5) [OF g] by simp
    then have "DrainClosed \<in> set evs" using tracedD(6) [OF t] by simp
    with h show ?thesis by blast
  qed
  from 1 2 show ?thesis by blast
qed

theorem only_panic_is_second_close_witness:
  "\<exists>evs w. exec exact_fit (first_shutdown @ [CallDrainTheQueue]) (boot 2) = Some (evs, w) \<and>
     halted w = Some CloseOfClosedChannel \<and> DrainClosed \<in> set evs"
proof -
  have "\<exists>evs w. exec exact_fit (first_shutdown @ [CallDrainTheQueue]) (boot 2) = Some (evs, w) \<and>
     halted w = Some CloseOfClosedChannel"
    by (simp add: first_shutdown_def demo_defs)
  then obtain evs w
    where r: "exec exact_fit (first_shutdown @ [CallDrainTheQueue]) (boot 2) = Some (evs, w)"
      and h: "halted w = Some CloseOfClosedChannel"
    by (elim exE conjE)
  from only_panic_is_second_close [OF r] h have "DrainClosed \<in> set evs" by blast
  with r h show ?thesis by (intro exI [of _ evs] exI [of _ w]) simp
qed

subsection \<open>What the sink receives\<close>

text \<open>
  Every message the program queues carries the priority of Debug, and its frame for
  the socket begins with \<open><15>\<close>.
\<close>

theorem every_message_at_debug_priority:
  assumes "exec grow acts (boot n) = Some (evs, w)"
  shows "\<forall>(p, m) \<in> set (queued evs). level m = LOG_DEBUG \<and> take 4 (framed m) = ''<15>''"
proof -
  have "\<forall>(p, m) \<in> set (queued evs). level m = LOG_DEBUG"
    using assms
  proof (induction acts arbitrary: evs w rule: rev_induct)
    case Nil
    then show ?case by (simp add: queued_def)
  next
    case (snoc a acts)
    from snoc.prems obtain evs1 w1 ev
      where e1: "exec grow acts (boot n) = Some (evs1, w1)"
        and s1: "step grow a w1 = Some (ev, w)"
        and ev: "evs = evs1 @ [ev]"
      by (auto simp: exec_snoc split: option.splits)
    from exec_invs [OF e1] have g: "guarded w1" and a: "accounted n w1" by simp_all
    from snoc.IH [OF e1] step_queued_level [OF s1 g a] ev show ?case
      by (auto simp: queued_snoc)
  qed
  moreover have "take 4 (framed m) = ''<15>''" if "level m = LOG_DEBUG" for m
    using that by (simp add: framed_def LOG_USER_def LOG_DEBUG_def fmt_d_def decimal.simps digit_def)
  ultimately show ?thesis by auto
qed

theorem every_message_at_debug_priority_witness:
  "\<exists>evs w. exec exact_fit ready_schedule (boot 2) = Some (evs, w) \<and>
     queued evs = [(0, \<lparr>bytes = ''[Info]   ready'' @ [CHR 0x00], bcap = 15, level = 7\<rparr>)] \<and>
     take 4 (framed \<lparr>bytes = ''[Info]   ready'' @ [CHR 0x00], bcap = 15, level = 7\<rparr>) = ''<15>''"
proof -
  have "\<exists>evs w. exec exact_fit ready_schedule (boot 2) = Some (evs, w) \<and>
     queued evs = [(0, \<lparr>bytes = ''[Info]   ready'' @ [CHR 0x00], bcap = 15, level = 7\<rparr>)]"
    by (simp add: ready_schedule_def demo_defs queued_def)
  then obtain evs w
    where r: "exec exact_fit ready_schedule (boot 2) = Some (evs, w)"
      and q: "queued evs = [(0, \<lparr>bytes = ''[Info]   ready'' @ [CHR 0x00], bcap = 15, level = 7\<rparr>)]"
    by (elim exE conjE)
  from every_message_at_debug_priority [OF r] q
  have "take 4 (framed \<lparr>bytes = ''[Info]   ready'' @ [CHR 0x00], bcap = 15, level = 7\<rparr>) = ''<15>''"
    by (simp add: LOG_DEBUG_def)
  with r q show ?thesis by (intro exI [of _ evs] exI [of _ w]) simp
qed

text \<open>
  A step of the writer that writes a message hands the sink that message as it stands
  in the array: to \<open>csyslog\<close> the facility with the level and the bytes up to the first
  NUL, to the socket the frame, NUL included; the other sink is not touched.
\<close>

theorem written_to_the_sink:
  assumes "step grow (WriterStep sunk) w = Some (Wrote msg m, w')"
  shows "m = msgArr (st w) ! msg \<and>
         (case customSock (st w) of
            None \<Rightarrow>
              customSock (st w') = None \<and>
              syslog_calls (st w') =
                syslog_calls (st w) @
                  [(LOG_USER OR level m, takeWhile (\<lambda>c. c \<noteq> CHR 0x00) (bytes m))]
          | Some c \<Rightarrow>
              customSock (st w') = Some (c\<lparr>writes := writes c @ [framed m]\<rparr>) \<and>
              syslog_calls (st w') = syslog_calls (st w))"
proof -
  note h = step_halted [OF assms]
  from assms h have s: "step_writer sunk w = Some (Wrote msg m, w')" by (simp add: step_def)
  show ?thesis
  proof (cases "writer w")
    case Receiving
    then show ?thesis using s
      by (auto simp: step_writer_receiving split: list.splits if_splits)
  next
    case (Writing p)
    obtain r s1 where ws: "logWriter_write sunk p (st w) = (r, s1)"
      by (cases "logWriter_write sunk p (st w)")
    from s ws Writing obtain r' where e: "p = msg" "m = msgArr (st w) ! msg" "st w' = s1"
      and r: "r = Returned r'"
      by (cases r) (auto simp: step_writer_def panic_def)
    let ?m = "msgArr (st w) ! msg"
    have "case customSock (st w) of
            None \<Rightarrow>
              customSock s1 = None \<and>
              syslog_calls s1 =
                syslog_calls (st w) @
                  [(LOG_USER OR level ?m, takeWhile (\<lambda>c. c \<noteq> CHR 0x00) (bytes ?m))]
          | Some c \<Rightarrow>
              customSock s1 = Some (c\<lparr>writes := writes c @ [framed ?m]\<rparr>) \<and>
              syslog_calls s1 = syslog_calls (st w)"
      using ws [unfolded r e(1)]
      by (auto simp: logWriter_write_def write_syslog_def writeCustomSocket_def Let_def
          split: if_splits option.splits)
    then show ?thesis using e by (auto split: option.splits)
  next
    case (Recycling p)
    obtain r s1 where f: "logWriter_recycle p (st w) = (r, s1)"
      by (cases "logWriter_recycle p (st w)")
    then show ?thesis using s Recycling
      by (cases r) (auto simp: step_writer_def panic_def)
  next
    case Exited
    then show ?thesis using s by (simp add: step_writer_def)
  qed
qed

theorem written_to_the_sink_witness:
  "\<exists>evs w w'. exec exact_fit (take 4 ready_schedule) (boot 2) = Some (evs, w) \<and>
     step exact_fit (WriterStep None) w =
       Some (Wrote 0 \<lparr>bytes = ''[Info]   ready'' @ [CHR 0x00], bcap = 15, level = 7\<rparr>, w') \<and>
     customSock (st w') =
       Some \<lparr>writes = [''<15>[Info]   ready'' @ [CHR 0x00]], conn_closed = False\<rparr> \<and>
     syslog_calls (st w') = []"
proof -
  have "\<exists>evs w w'. exec exact_fit (take 4 ready_schedule) (boot 2) = Some (evs, w) \<and>
     step exact_fit (WriterStep None) w =
       Some (Wrote 0 \<lparr>bytes = ''[Info]   ready'' @ [CHR 0x00], bcap = 15, level = 7\<rparr>, w') \<and>
     customSock (st w) = Some \<lparr>writes = [], conn_closed = False\<rparr> \<and>
     syslog_calls (st w) = []"
    by (simp add: ready_schedule_def demo_defs)
  then obtain evs w w'
    where r: "exec exact_fit (take 4 ready_schedule) (boot 2) = Some (evs, w)"
      and s: "step exact_fit (WriterStep None) w =
       Some (Wrote 0 \<lparr>bytes = ''[Info]   ready'' @ [CHR 0x00], bcap = 15, level = 7\<rparr>, w')"
      and c: "customSock (st w) = Some \<lparr>writes = [], conn_closed = False\<rparr>"
      and l: "syslog_calls (st w) = []"
    by (elim exE conjE)
  from written_to_the_sink [OF s] c l
  have "customSock (st w') =
       Some \<lparr>writes = [''<15>[Info]   ready'' @ [CHR 0x00]], conn_closed = False\<rparr> \<and>
     syslog_calls (st w') = []"
    by (simp add: framed_def LOG_USER_def fmt_d_def decimal.simps digit_def)
  with r s show ?thesis
    by (intro exI [of _ evs] exI [of _ w] exI [of _ w']) simp
qed

end
